theory Spec2Isabelle
  imports Main "HOL-Library.Log_Nat"
begin

unbundle bit_operations_syntax

section \<open>Arithmetic types and their values\<close>

text \<open>
  The templates of \<open>ClampRawValue Traced Code.cpp\<close> are instantiated at the arithmetic
  types of C++. A template type parameter becomes an argument of type \<open>ntype\<close>: the
  fixed-width integer types and the two IEEE binary floating-point types, on a platform
  where \<open>int\<close> is 32 bits wide.
\<close>

datatype ntype =
  Int8 | Int16 | Int32 | Int64 | UInt8 | UInt16 | UInt32 | UInt64 | Float | Double

fun is_floating_point :: "ntype \<Rightarrow> bool" where
  "is_floating_point Float = True"
| "is_floating_point Double = True"
| "is_floating_point _ = False"

definition is_integral :: "ntype \<Rightarrow> bool" where
  "is_integral t = (\<not> is_floating_point t)"

fun is_signed :: "ntype \<Rightarrow> bool" where
  "is_signed UInt8 = False"
| "is_signed UInt16 = False"
| "is_signed UInt32 = False"
| "is_signed UInt64 = False"
| "is_signed _ = True"

text \<open>Width in bits of the object representation.\<close>

fun bits :: "ntype \<Rightarrow> nat" where
  "bits Int8 = 8"
| "bits UInt8 = 8"
| "bits Int16 = 16"
| "bits UInt16 = 16"
| "bits Int32 = 32"
| "bits UInt32 = 32"
| "bits Float = 32"
| "bits Int64 = 64"
| "bits UInt64 = 64"
| "bits Double = 64"

text \<open>\<open>std::numeric_limits<T>::digits\<close> and \<open>max_exponent\<close>.\<close>

fun digits :: "ntype \<Rightarrow> nat" where
  "digits Float = 24"
| "digits Double = 53"
| "digits t = (if is_signed t then bits t - 1 else bits t)"

fun max_exponent :: "ntype \<Rightarrow> nat" where
  "max_exponent Float = 128"
| "max_exponent Double = 1024"
| "max_exponent _ = 0"

fun make_unsigned :: "ntype \<Rightarrow> ntype" where
  "make_unsigned Int8 = UInt8"
| "make_unsigned Int16 = UInt16"
| "make_unsigned Int32 = UInt32"
| "make_unsigned Int64 = UInt64"
| "make_unsigned t = t"

fun make_signed :: "ntype \<Rightarrow> ntype" where
  "make_signed UInt8 = Int8"
| "make_signed UInt16 = Int16"
| "make_signed UInt32 = Int32"
| "make_signed UInt64 = Int64"
| "make_signed t = t"

text \<open>
  A floating-point value is not-a-number, an infinity or a finite rational; the sign of
  zero is not modelled. A value of an arithmetic type is an integer or a floating-point
  value.
\<close>

datatype fval = FNaN | NegInf | Fin rat | PosInf

datatype val = IntV int | FltV fval

subsection \<open>Integer conversions\<close>

text \<open>
  Conversion of an integer to an integer type keeps the value modulo \<open>2 ^ bits\<close>; a
  signed destination reads the result as two's complement.
\<close>

definition wrap_unsigned :: "nat \<Rightarrow> int \<Rightarrow> int" where
  "wrap_unsigned w v = v mod 2 ^ w"

definition wrap_signed :: "nat \<Rightarrow> int \<Rightarrow> int" where
  "wrap_signed w v = (v + 2 ^ (w - 1)) mod 2 ^ w - 2 ^ (w - 1)"

definition int_cast :: "ntype \<Rightarrow> int \<Rightarrow> int" where
  "int_cast t v = (if is_signed t then wrap_signed (bits t) v else wrap_unsigned (bits t) v)"

definition int_max :: "ntype \<Rightarrow> int" where
  "int_max t = 2 ^ digits t - 1"

definition int_lowest :: "ntype \<Rightarrow> int" where
  "int_lowest t = (if is_signed t then - (2 ^ digits t) else 0)"

text \<open>The values an integer type holds.\<close>

definition int_value_of :: "ntype \<Rightarrow> int \<Rightarrow> bool" where
  "int_value_of t v = (is_integral t \<and> int_lowest t \<le> v \<and> v \<le> int_max t)"

text \<open>
  Integral promotion and the usual arithmetic conversions: the type in which a binary
  operator on two integer operands is evaluated (\<open>decltype(a + b)\<close>).
\<close>

definition promote :: "ntype \<Rightarrow> ntype" where
  "promote t = (if is_integral t \<and> bits t < 32 then Int32 else t)"

definition arith_conv :: "ntype \<Rightarrow> ntype \<Rightarrow> ntype" where
  "arith_conv a b =
     (if a = Double \<or> b = Double then Double
      else if a = Float \<or> b = Float then Float
      else let a' = promote a; b' = promote b in
        if a' = b' then a'
        else if is_signed a' = is_signed b' then (if bits b' \<le> bits a' then a' else b')
        else let u = (if is_signed a' then b' else a');
                 s = (if is_signed a' then a' else b') in
          if bits s \<le> bits u then u else s)"

subsection \<open>Floating-point conversions\<close>

text \<open>
  The largest finite value of a binary floating-point type with \<open>digits\<close> bits of
  mantissa and the given \<open>max_exponent\<close>; \<open>min_exponent\<close> is \<open>3 - max_exponent\<close> for the
  IEEE formats.
\<close>

definition fp_max :: "ntype \<Rightarrow> rat" where
  "fp_max t = 2 ^ max_exponent t - 2 ^ (max_exponent t - digits t)"

definition min_exponent :: "ntype \<Rightarrow> int" where
  "min_exponent t = 3 - int (max_exponent t)"

definition pow2 :: "int \<Rightarrow> rat" where
  "pow2 e = (if 0 \<le> e then 2 ^ nat e else 1 / 2 ^ nat (- e))"

text \<open>The exponent \<open>e\<close> of a positive rational \<open>a\<close>: \<open>2 ^ (e - 1) \<le> a < 2 ^ e\<close>.\<close>

definition fp_exponent :: "rat \<Rightarrow> int" where
  "fp_exponent a = (if 1 \<le> a then bitlen \<lfloor>a\<rfloor> else 1 - bitlen (\<lceil>1 / a\<rceil> - 1))"

definition round_half_even :: "rat \<Rightarrow> int" where
  "round_half_even m =
     (let f = \<lfloor>m\<rfloor>; r = m - of_int f in
      if r < 1 / 2 then f else if 1 / 2 < r then f + 1 else if even f then f else f + 1)"

text \<open>
  Conversion of a number to a floating-point type rounds to the nearest representable
  value, ties to even (the default IEEE rounding the comment on \<open>NarrowingRange\<close> refers
  to); a magnitude that rounds beyond the largest finite value becomes an infinity.
\<close>

definition fp_round :: "ntype \<Rightarrow> rat \<Rightarrow> fval" where
  "fp_round t q =
     (if q = 0 then Fin 0
      else let a = \<bar>q\<bar>;
               e = max (fp_exponent a) (min_exponent t);
               u = pow2 (e - int (digits t));
               r = of_int (round_half_even (a / u)) * u in
        if fp_max t < r then (if q < 0 then NegInf else PosInf)
        else Fin (if q < 0 then - r else r))"

text \<open>
  The same rounding in integer arithmetic, for a positive integer \<open>a\<close> of \<open>N\<close> bits
  (\<open>2 ^ (N - 1) \<le> a < 2 ^ N\<close>) and a mantissa of \<open>d\<close> bits.
\<close>

definition round_integer :: "nat \<Rightarrow> nat \<Rightarrow> int \<Rightarrow> int" where
  "round_integer d N a =
     (if N \<le> d then a
      else let s = N - d; q = a div 2 ^ s; r = a mod 2 ^ s; h = 2 ^ (s - 1) in
        (if r < h then q else if h < r then q + 1 else if even q then q else q + 1) * 2 ^ s)"

text \<open>Conversion of a floating-point value to an integer discards the fractional part.\<close>

definition trunc :: "rat \<Rightarrow> int" where
  "trunc q = (if 0 \<le> q then \<lfloor>q\<rfloor> else \<lceil>q\<rceil>)"

text \<open>
  Conversion of a value to the type \<open>t\<close>. C++ leaves the conversion of a floating-point
  value to an integer type undefined when the truncated value is outside the type, and
  for infinities and not-a-number; here the former wraps like an integer conversion and
  the latter give 0. \<open>cast_defined\<close> says when the conversion is defined by the language.
\<close>

fun convert :: "ntype \<Rightarrow> val \<Rightarrow> val" where
  "convert t (IntV n) =
     (if is_floating_point t then FltV (fp_round t (of_int n)) else IntV (int_cast t n))"
| "convert t (FltV (Fin q)) =
     (if is_floating_point t then FltV (fp_round t q) else IntV (int_cast t (trunc q)))"
| "convert t (FltV f) = (if is_floating_point t then FltV f else IntV 0)"

text \<open>
  \<open>static_cast<Dst>(v)\<close> for \<open>v\<close> of type \<open>Src\<close>: nothing is converted when the two
  types are the same.
\<close>

definition static_cast :: "ntype \<Rightarrow> ntype \<Rightarrow> val \<Rightarrow> val" where
  "static_cast dst src v = (if dst = src then v else convert dst v)"

fun cast_defined :: "ntype \<Rightarrow> val \<Rightarrow> bool" where
  "cast_defined t (IntV n) = True"
| "cast_defined t (FltV (Fin q)) =
     (is_floating_point t \<or> (int_lowest t \<le> trunc q \<and> trunc q \<le> int_max t))"
| "cast_defined t (FltV f) = is_floating_point t"

text \<open>\<open>std::numeric_limits<T>\<close>: the members the code reads.\<close>

record limits =
  lim_max :: val
  lim_lowest :: val

definition has_infinity :: "ntype \<Rightarrow> bool" where
  "has_infinity t = is_floating_point t"

definition has_quiet_NaN :: "ntype \<Rightarrow> bool" where
  "has_quiet_NaN t = is_floating_point t"

definition numeric_limits :: "ntype \<Rightarrow> limits" where
  "numeric_limits t =
     (if is_floating_point t
      then \<lparr>lim_max = FltV (Fin (fp_max t)), lim_lowest = FltV (Fin (- fp_max t))\<rparr>
      else \<lparr>lim_max = IntV (int_max t), lim_lowest = IntV (int_lowest t)\<rparr>)"

text \<open>The values a type holds: for a floating-point type, those that rounding keeps.\<close>

fun value_of :: "ntype \<Rightarrow> val \<Rightarrow> bool" where
  "value_of t (IntV n) = int_value_of t n"
| "value_of t (FltV (Fin q)) = (is_floating_point t \<and> fp_round t q = Fin q)"
| "value_of t (FltV f) = is_floating_point t"

subsection \<open>Comparison operators\<close>

text \<open>
  Comparisons of floating-point values are false when an operand is not-a-number. A
  comparison \<open>a <= b\<close> of operands of types \<open>ta\<close> and \<open>tb\<close> converts both to
  the common type first.
\<close>

fun to_fval :: "val \<Rightarrow> fval" where
  "to_fval (IntV n) = Fin (of_int n)"
| "to_fval (FltV f) = f"

fun fval_less :: "fval \<Rightarrow> fval \<Rightarrow> bool" where
  "fval_less FNaN _ = False"
| "fval_less _ FNaN = False"
| "fval_less (Fin a) (Fin b) = (a < b)"
| "fval_less _ NegInf = False"
| "fval_less NegInf _ = True"
| "fval_less PosInf _ = False"
| "fval_less _ PosInf = True"

fun fval_eq :: "fval \<Rightarrow> fval \<Rightarrow> bool" where
  "fval_eq FNaN _ = False"
| "fval_eq _ FNaN = False"
| "fval_eq a b = (a = b)"

fun val_less :: "val \<Rightarrow> val \<Rightarrow> bool" where
  "val_less (IntV a) (IntV b) = (a < b)"
| "val_less a b = fval_less (to_fval a) (to_fval b)"

fun val_eq :: "val \<Rightarrow> val \<Rightarrow> bool" where
  "val_eq (IntV a) (IntV b) = (a = b)"
| "val_eq a b = fval_eq (to_fval a) (to_fval b)"

definition val_le :: "val \<Rightarrow> val \<Rightarrow> bool" where
  "val_le a b = (val_less a b \<or> val_eq a b)"

definition c_less :: "ntype \<Rightarrow> val \<Rightarrow> ntype \<Rightarrow> val \<Rightarrow> bool" where
  "c_less ta a tb b =
     (let tc = arith_conv ta tb in val_less (static_cast tc ta a) (static_cast tc tb b))"

definition c_le :: "ntype \<Rightarrow> val \<Rightarrow> ntype \<Rightarrow> val \<Rightarrow> bool" where
  "c_le ta a tb b =
     (let tc = arith_conv ta tb in val_le (static_cast tc ta a) (static_cast tc tb b))"

definition c_eq :: "ntype \<Rightarrow> val \<Rightarrow> ntype \<Rightarrow> val \<Rightarrow> bool" where
  "c_eq ta a tb b =
     (let tc = arith_conv ta tb in val_eq (static_cast tc ta a) (static_cast tc tb b))"

definition c_greater :: "ntype \<Rightarrow> val \<Rightarrow> ntype \<Rightarrow> val \<Rightarrow> bool" where
  "c_greater ta a tb b = c_less tb b ta a"

definition c_ge :: "ntype \<Rightarrow> val \<Rightarrow> ntype \<Rightarrow> val \<Rightarrow> bool" where
  "c_ge ta a tb b = c_le tb b ta a"

subsection \<open>Sign test, absolute value and negation\<close>

text \<open>\<open>IsValueNegative\<close>: \<open>value < 0\<close> for a signed type, false for an unsigned one.\<close>

definition IsValueNegative :: "ntype \<Rightarrow> val \<Rightarrow> bool" where
  "IsValueNegative t value = (if is_signed t then c_less t value Int32 (IntV 0) else False)"

text \<open>
  \<open>SafeUnsignedAbs\<close>: the subtraction \<open>0u - static_cast<UnsignedT>(value)\<close> is evaluated
  in the common type of \<open>unsigned int\<close> and \<open>UnsignedT\<close>, where it wraps, and then
  converted to \<open>UnsignedT\<close>.
\<close>

definition SafeUnsignedAbs :: "ntype \<Rightarrow> int \<Rightarrow> int" where
  "SafeUnsignedAbs t v =
     (let ut = make_unsigned t in
      if IsValueNegative t (IntV v)
      then int_cast ut (int_cast (arith_conv UInt32 ut) (0 - int_cast ut v))
      else int_cast ut v)"

text \<open>
  \<open>ConditionalNegate\<close>, for an argument of integer type \<open>t\<close>: the exclusive or is
  evaluated in the promoted unsigned type, the addition of the \<open>bool\<close> in the common type
  of that and \<open>int\<close>; the result is converted to the signed type.
\<close>

definition ConditionalNegate :: "ntype \<Rightarrow> int \<Rightarrow> bool \<Rightarrow> int" where
  "ConditionalNegate t x is_negative =
     (let st = make_signed t; ut = make_unsigned t;
          b = (if is_negative then 1 else 0);
          negb = int_cast (promote st) (- int_cast st b);
          xt = arith_conv ut ut;
          x1 = int_cast xt (int_cast ut x) XOR int_cast xt (int_cast ut negb);
          pt = arith_conv xt Int32
      in int_cast st (int_cast pt (int_cast pt x1 + int_cast pt b)))"

section \<open>Range classification\<close>

subsection \<open>Narrowing range\<close>

definition kMaxExponent :: "ntype \<Rightarrow> nat" where
  "kMaxExponent t = (if is_floating_point t then max_exponent t else digits t + 1)"

definition kShift :: "ntype \<Rightarrow> ntype \<Rightarrow> nat" where
  "kShift dst src =
     (if kMaxExponent dst < kMaxExponent src \<and> digits src < digits dst
      then digits dst - digits src else 0)"

text \<open>The constraint on \<open>NarrowingRange::Adjust\<close>.\<close>

definition Adjust_requires :: "ntype \<Rightarrow> ntype \<Rightarrow> bool" where
  "Adjust_requires dst src =
     ((is_integral dst \<and> kShift dst src < digits dst) \<or>
      (is_floating_point dst \<and> kShift dst src = 0))"

text \<open>
  \<open>NarrowingRange<Dst, Src, Bounds>::Adjust\<close>. For an integer \<open>Dst\<close> the mask
  \<open>~((UnsignedDst{1} << kShift) - UnsignedDst{1})\<close> and the conjunction are evaluated in
  the promoted type of \<open>UnsignedDst\<close>, which is also the type \<open>ConditionalNegate\<close> is
  instantiated at.
\<close>

definition Adjust :: "ntype \<Rightarrow> ntype \<Rightarrow> val \<Rightarrow> val" where
  "Adjust dst src value =
     (if is_integral dst then
        (case value of
           IntV v \<Rightarrow>
             let ud = make_unsigned dst; pt = promote ud;
                 shl = int_cast pt (push_bit (kShift dst src) (int_cast pt 1));
                 msk = int_cast pt (NOT (int_cast pt (shl - int_cast pt 1)));
                 a = int_cast pt (SafeUnsignedAbs dst v) AND msk
             in IntV (int_cast dst (ConditionalNegate pt a (IsValueNegative dst value)))
         | FltV f \<Rightarrow> value)
      else value)"

definition NarrowingRange_max :: "ntype \<Rightarrow> ntype \<Rightarrow> (ntype \<Rightarrow> 'a limits_scheme) \<Rightarrow> val" where
  "NarrowingRange_max dst src Bounds = Adjust dst src (lim_max (Bounds dst))"

definition NarrowingRange_lowest :: "ntype \<Rightarrow> ntype \<Rightarrow> (ntype \<Rightarrow> 'a limits_scheme) \<Rightarrow> val" where
  "NarrowingRange_lowest dst src Bounds = Adjust dst src (lim_lowest (Bounds dst))"

subsection \<open>Static range relation\<close>

datatype IntegerRepresentation = kUnsigned | kSigned

datatype NumericRangeRepresentation = kNotContained | kContained

definition representation :: "ntype \<Rightarrow> IntegerRepresentation" where
  "representation t = (if is_signed t then kSigned else kUnsigned)"

text \<open>
  \<open>kStaticDstRangeRelationToSrcRange<Dst, Src, DstSign, SrcSign>\<close>: the two
  specialisations by sign, then the primary template.
\<close>

fun kStaticDstRangeRelationToSrcRange_by_sign ::
  "ntype \<Rightarrow> ntype \<Rightarrow> IntegerRepresentation \<Rightarrow> IntegerRepresentation \<Rightarrow>
   NumericRangeRepresentation" where
  "kStaticDstRangeRelationToSrcRange_by_sign dst src kSigned kUnsigned =
     (if kMaxExponent src < kMaxExponent dst then kContained else kNotContained)"
| "kStaticDstRangeRelationToSrcRange_by_sign dst src kUnsigned kSigned = kNotContained"
| "kStaticDstRangeRelationToSrcRange_by_sign dst src _ _ =
     (if kMaxExponent src \<le> kMaxExponent dst then kContained else kNotContained)"

definition kStaticDstRangeRelationToSrcRange ::
  "ntype \<Rightarrow> ntype \<Rightarrow> NumericRangeRepresentation" where
  "kStaticDstRangeRelationToSrcRange dst src =
     kStaticDstRangeRelationToSrcRange_by_sign dst src (representation dst) (representation src)"

subsection \<open>The range check\<close>

record RangeCheck =
  is_underflow :: bool
  is_overflow :: bool

definition RangeCheck_ctor :: "bool \<Rightarrow> bool \<Rightarrow> RangeCheck" where
  "RangeCheck_ctor is_in_lower_bound is_in_upper_bound =
     \<lparr>is_underflow = \<not> is_in_lower_bound, is_overflow = \<not> is_in_upper_bound\<rparr>"

definition IsValid :: "RangeCheck \<Rightarrow> bool" where
  "IsValid c = (\<not> is_overflow c \<and> \<not> is_underflow c)"

definition IsInvalid :: "RangeCheck \<Rightarrow> bool" where
  "IsInvalid c = (is_overflow c \<and> is_underflow c)"

definition IsOverflow :: "RangeCheck \<Rightarrow> bool" where
  "IsOverflow c = (is_overflow c \<and> \<not> is_underflow c)"

definition IsUnderflow :: "RangeCheck \<Rightarrow> bool" where
  "IsUnderflow c = (\<not> is_overflow c \<and> is_underflow c)"

definition IsOverflowFlagSet :: "RangeCheck \<Rightarrow> bool" where
  "IsOverflowFlagSet c = is_overflow c"

definition IsUnderflowFlagSet :: "RangeCheck \<Rightarrow> bool" where
  "IsUnderflowFlagSet c = is_underflow c"

text \<open>
  \<open>DstRangeRelationToSrcRangeImpl<Dst, Src, Bounds, DstSign, SrcSign, DstRange>::Check\<close>:
  the four specialisations for a range that is not contained, then the primary template.
\<close>

fun DstRangeRelationToSrcRangeImpl ::
  "ntype \<Rightarrow> ntype \<Rightarrow> (ntype \<Rightarrow> 'a limits_scheme) \<Rightarrow> IntegerRepresentation \<Rightarrow>
   IntegerRepresentation \<Rightarrow> NumericRangeRepresentation \<Rightarrow> val \<Rightarrow> RangeCheck" where
  "DstRangeRelationToSrcRangeImpl dst src Bounds kSigned kSigned kNotContained value =
     RangeCheck_ctor
       (c_ge src value dst (NarrowingRange_lowest dst src Bounds))
       (c_le src value dst (NarrowingRange_max dst src Bounds))"
| "DstRangeRelationToSrcRangeImpl dst src Bounds kUnsigned kUnsigned kNotContained value =
     RangeCheck_ctor
       (c_eq dst (NarrowingRange_lowest dst src Bounds) dst (static_cast dst Int32 (IntV 0)) \<or>
        c_ge src value dst (NarrowingRange_lowest dst src Bounds))
       (c_le src value dst (NarrowingRange_max dst src Bounds))"
| "DstRangeRelationToSrcRangeImpl dst src Bounds kSigned kUnsigned kNotContained value =
     (let Promotion = arith_conv src dst in
      RangeCheck_ctor
        (c_le dst (NarrowingRange_lowest dst src Bounds) dst (static_cast dst Int32 (IntV 0)) \<or>
         c_ge Promotion (static_cast Promotion src value)
              Promotion (static_cast Promotion dst (NarrowingRange_lowest dst src Bounds)))
        (c_le Promotion (static_cast Promotion src value)
              Promotion (static_cast Promotion dst (NarrowingRange_max dst src Bounds))))"
| "DstRangeRelationToSrcRangeImpl dst src Bounds kUnsigned kSigned kNotContained value =
     (let Promotion = arith_conv src dst;
          ge_zero = (if is_floating_point src
                     then c_greater src value src (static_cast src Int32 (IntV (- 1)))
                     else c_ge src value src (static_cast src Int32 (IntV 0))) in
      RangeCheck_ctor
        (ge_zero \<and>
         (c_eq dst (NarrowingRange_lowest dst src Bounds) Int32 (IntV 0) \<or>
          c_ge dst (static_cast dst src value) dst (NarrowingRange_lowest dst src Bounds)))
        (c_le Promotion (static_cast Promotion src (lim_max (numeric_limits src)))
              Promotion (static_cast Promotion dst (NarrowingRange_max dst src Bounds)) \<or>
         c_le Promotion (static_cast Promotion src value)
              Promotion (static_cast Promotion dst (NarrowingRange_max dst src Bounds))))"
| "DstRangeRelationToSrcRangeImpl dst src Bounds _ _ _ value =
     RangeCheck_ctor
       (c_ge dst (static_cast dst src (lim_lowest (numeric_limits src)))
             dst (NarrowingRange_lowest dst src Bounds) \<or>
        c_ge dst (static_cast dst src value) dst (NarrowingRange_lowest dst src Bounds))
       (c_le dst (static_cast dst src (lim_max (numeric_limits src)))
             dst (NarrowingRange_max dst src Bounds) \<or>
        c_le dst (static_cast dst src value) dst (NarrowingRange_max dst src Bounds))"

definition DstRangeRelationToSrcRange ::
  "ntype \<Rightarrow> (ntype \<Rightarrow> 'a limits_scheme) \<Rightarrow> ntype \<Rightarrow> val \<Rightarrow> RangeCheck" where
  "DstRangeRelationToSrcRange dst Bounds src value =
     DstRangeRelationToSrcRangeImpl dst src Bounds (representation dst) (representation src)
       (kStaticDstRangeRelationToSrcRange dst src) value"

text \<open>The constraint on \<open>DstRangeRelationToSrcRange\<close>.\<close>

definition Bounds_ok :: "(ntype \<Rightarrow> 'a limits_scheme) \<Rightarrow> ntype \<Rightarrow> bool" where
  "Bounds_ok Bounds dst = c_less dst (lim_lowest (Bounds dst)) dst (lim_max (Bounds dst))"

section \<open>Saturating cast\<close>

text \<open>
  A saturation handler: \<open>numeric_limits\<close> with the three boundary functions
  \<open>Overflow\<close>, \<open>Underflow\<close> and \<open>NaN\<close>.
\<close>

record handler = limits +
  Overflow :: val
  Underflow :: val
  NaN :: val

definition SaturationDefaultLimits :: "ntype \<Rightarrow> handler" where
  "SaturationDefaultLimits t =
     \<lparr>lim_max = lim_max (numeric_limits t),
      lim_lowest = lim_lowest (numeric_limits t),
      Overflow = (if has_infinity t then FltV PosInf else lim_max (numeric_limits t)),
      Underflow = (if has_infinity t then FltV NegInf else lim_lowest (numeric_limits t)),
      NaN = (if has_quiet_NaN t then FltV FNaN else static_cast t Int32 (IntV 0))\<rparr>"

definition saturated_cast_impl ::
  "ntype \<Rightarrow> (ntype \<Rightarrow> handler) \<Rightarrow> ntype \<Rightarrow> val \<Rightarrow> RangeCheck \<Rightarrow> val" where
  "saturated_cast_impl dst S src value constraint =
     (if \<not> IsOverflowFlagSet constraint
      then (if \<not> IsUnderflowFlagSet constraint then static_cast dst src value
            else Underflow (S dst))
      else (if is_integral src \<or> \<not> IsUnderflowFlagSet constraint then Overflow (S dst)
            else NaN (S dst)))"


subsection \<open>The accelerated path for integers\<close>

text \<open>
  Modelled from the spec: \<open>IsGreaterOrEqual<L, R>::Test\<close> and \<open>IsLessOrEqual<L, R>::Test\<close>
  are not in the sources. By their use in \<open>kIsMaxInRangeForNumericType\<close> and
  \<open>kIsMinInRangeForNumericType\<close>, and by the comment on the range relation (a range is
  contained if \<open>numeric_limits<Src>::max() <= numeric_limits<Dst>::max()\<close> and
  \<open>numeric_limits<Src>::lowest() >= numeric_limits<Dst>::lowest()\<close>), they compare the
  numeric values of their arguments, whatever the two types.
\<close>

definition IsGreaterOrEqual_Test :: "val \<Rightarrow> val \<Rightarrow> bool" where
  "IsGreaterOrEqual_Test lhs rhs = val_le rhs lhs"

definition IsLessOrEqual_Test :: "val \<Rightarrow> val \<Rightarrow> bool" where
  "IsLessOrEqual_Test lhs rhs = val_le lhs rhs"

text \<open>
  Modelled from the spec: \<open>kIsTypeInRangeForNumericType\<close> and \<open>as_unsigned\<close> are not in the
  sources either. The first is the static range relation being \<open>kContained\<close> (the
  specification's statically contained range), the second the conversion to the unsigned
  type of the same width.
\<close>

definition kIsTypeInRangeForNumericType :: "ntype \<Rightarrow> ntype \<Rightarrow> bool" where
  "kIsTypeInRangeForNumericType dst src =
     (kStaticDstRangeRelationToSrcRange dst src = kContained)"

definition as_unsigned :: "ntype \<Rightarrow> val \<Rightarrow> val" where
  "as_unsigned t value = static_cast (make_unsigned t) t value"

definition kIsMaxInRangeForNumericType :: "ntype \<Rightarrow> ntype \<Rightarrow> bool" where
  "kIsMaxInRangeForNumericType dst src =
     IsGreaterOrEqual_Test (lim_max (numeric_limits dst)) (lim_max (numeric_limits src))"

definition kIsMinInRangeForNumericType :: "ntype \<Rightarrow> ntype \<Rightarrow> bool" where
  "kIsMinInRangeForNumericType dst src =
     IsLessOrEqual_Test (lim_lowest (numeric_limits dst)) (lim_lowest (numeric_limits src))"

definition kCommonMax :: "ntype \<Rightarrow> ntype \<Rightarrow> val" where
  "kCommonMax dst src =
     (if kIsMaxInRangeForNumericType dst src
      then static_cast dst src (lim_max (numeric_limits src))
      else lim_max (numeric_limits dst))"

definition kCommonMin :: "ntype \<Rightarrow> ntype \<Rightarrow> val" where
  "kCommonMin dst src =
     (if kIsMinInRangeForNumericType dst src
      then static_cast dst src (lim_lowest (numeric_limits src))
      else lim_lowest (numeric_limits dst))"

definition CommonMaxOrMin :: "ntype \<Rightarrow> ntype \<Rightarrow> bool \<Rightarrow> val" where
  "CommonMaxOrMin dst src is_min = (if is_min then kCommonMin dst src else kCommonMax dst src)"

definition signed_integral :: "ntype \<Rightarrow> bool" where
  "signed_integral t = (is_integral t \<and> is_signed t)"

definition unsigned_integral :: "ntype \<Rightarrow> bool" where
  "unsigned_integral t = (is_integral t \<and> \<not> is_signed t)"

text \<open>
  \<open>IsValueInRangeFastOp\<close>: the primary template is not supported; the two
  specialisations are for a signed integer source whose range is not contained.
\<close>

definition IsValueInRangeFastOp_is_supported :: "ntype \<Rightarrow> ntype \<Rightarrow> bool" where
  "IsValueInRangeFastOp_is_supported dst src =
     ((signed_integral dst \<and> signed_integral src \<and> \<not> kIsTypeInRangeForNumericType dst src) \<or>
      (unsigned_integral dst \<and> signed_integral src \<and> \<not> kIsTypeInRangeForNumericType dst src))"

definition IsValueInRangeFastOp_Do :: "ntype \<Rightarrow> ntype \<Rightarrow> val \<Rightarrow> bool" where
  "IsValueInRangeFastOp_Do dst src value =
     (if signed_integral dst
      then c_eq src value dst (static_cast dst src value)
      else c_le (make_unsigned src) (as_unsigned src value)
                (make_unsigned src) (as_unsigned src (kCommonMax src dst)))"

definition IsValueInRangeForNumericType :: "ntype \<Rightarrow> ntype \<Rightarrow> val \<Rightarrow> bool" where
  "IsValueInRangeForNumericType dst src value =
     (let underlying_value = static_cast src src value in
      if IsValueInRangeFastOp_is_supported dst src
      then IsValueInRangeFastOp_Do dst src underlying_value
      else IsValid (DstRangeRelationToSrcRange dst numeric_limits src underlying_value))"

text \<open>
  \<open>SaturateFastOp\<close>: supported for every pair of integer types. \<open>SaturateFastAsmOp\<close>, the
  platform's assembly implementation, is not in the sources; \<open>Do\<close> is the specialisation
  for a pair without one.
\<close>

definition SaturateFastOp_is_supported :: "ntype \<Rightarrow> ntype \<Rightarrow> bool" where
  "SaturateFastOp_is_supported dst src = (is_integral src \<and> is_integral dst)"

definition SaturateFastOp_Do :: "ntype \<Rightarrow> ntype \<Rightarrow> val \<Rightarrow> val" where
  "SaturateFastOp_Do dst src value =
     (let saturated = CommonMaxOrMin dst src
            (kIsMaxInRangeForNumericType dst src \<or>
             (\<not> kIsMinInRangeForNumericType dst src \<and> IsValueNegative src value)) in
      if IsValueInRangeForNumericType dst src value then static_cast dst src value
      else saturated)"

subsection \<open>The entry point\<close>

text \<open>
  The saturation handler of a call is the default one or a custom one;
  \<open>is_constant_evaluated\<close> is an argument of the model.
\<close>

datatype policy = DefaultLimits | CustomLimits "ntype \<Rightarrow> handler"

fun SaturationHandler :: "policy \<Rightarrow> ntype \<Rightarrow> handler" where
  "SaturationHandler DefaultLimits = SaturationDefaultLimits"
| "SaturationHandler (CustomLimits S) = S"

fun is_default_handler :: "policy \<Rightarrow> bool" where
  "is_default_handler DefaultLimits = True"
| "is_default_handler (CustomLimits S) = False"

definition saturated_cast :: "ntype \<Rightarrow> policy \<Rightarrow> ntype \<Rightarrow> bool \<Rightarrow> val \<Rightarrow> val" where
  "saturated_cast dst p src is_constant_evaluated value =
     (let underlying_value = static_cast src src value in
      if \<not> is_constant_evaluated \<and> SaturateFastOp_is_supported dst src \<and> is_default_handler p
      then SaturateFastOp_Do dst src underlying_value
      else saturated_cast_impl dst (SaturationHandler p) src underlying_value
             (DstRangeRelationToSrcRange dst (SaturationHandler p) src underlying_value))"

text \<open>\<open>FixedPoint<fractional_bits, Storage>::ClampRawValue\<close>, evaluated at run time.\<close>

definition ClampRawValue :: "ntype \<Rightarrow> ntype \<Rightarrow> val \<Rightarrow> val" where
  "ClampRawValue Storage T raw_value = saturated_cast Storage DefaultLimits T False raw_value"


section \<open>Integer conversions and bit operations\<close>

lemma wrapped_negation:
  fixes v :: int
  assumes "0 < w" "w \<le> W" "- (2 ^ (w - 1)) \<le> v" "v < 0"
  shows "(0 - v mod 2 ^ w) mod 2 ^ W mod 2 ^ w = - v"
proof -
  have dvd: "(2::int) ^ w dvd 2 ^ W" using assms(2) by (rule le_imp_power_dvd)
  have "(0 - v mod 2 ^ w) mod 2 ^ W mod 2 ^ w = (0 - v mod 2 ^ w) mod 2 ^ w"
    using dvd by (rule mod_mod_cancel)
  also have "\<dots> = (- v) mod 2 ^ w"
    by (simp add: mod_minus_eq)
  also have "\<dots> = - v"
  proof (rule mod_pos_pos_trivial)
    show "0 \<le> - v" using assms(4) by simp
    have "(2::int) ^ (w - 1) < 2 ^ w" using assms(1) by (simp add: power_strict_increasing)
    then show "- v < 2 ^ w" using assms(3) by linarith
  qed
  finally show ?thesis .
qed

lemma mod_neg_range:
  fixes v :: int
  assumes "- (2 ^ w) < v" "v < 0"
  shows "v mod 2 ^ w = v + 2 ^ w"
proof -
  have "(v + 2 ^ w) mod 2 ^ w = v + 2 ^ w"
    using assms by (intro mod_pos_pos_trivial) linarith+
  then show ?thesis by simp
qed

lemma wrap_signed_id:
  assumes "0 < w" "- (2 ^ (w - 1)) \<le> v" "v < 2 ^ (w - 1)"
  shows "wrap_signed w v = v"
proof -
  have "(2::int) ^ w = 2 * 2 ^ (w - 1)" using assms(1) by (cases w) simp_all
  then have "(v + 2 ^ (w - 1)) mod 2 ^ w = v + 2 ^ (w - 1)"
    using assms by (intro mod_pos_pos_trivial) linarith+
  then show ?thesis by (simp add: wrap_signed_def)
qed

lemma wrap_unsigned_id: "0 \<le> v \<Longrightarrow> v < 2 ^ w \<Longrightarrow> wrap_unsigned w v = v"
  by (simp add: wrap_unsigned_def)

lemma int_cast_id: "int_value_of t v \<Longrightarrow> int_cast t v = v"
  by (cases t)
    (auto simp: int_value_of_def int_cast_def wrap_signed_def wrap_unsigned_def
      int_lowest_def int_max_def is_integral_def)

lemma IsValueNegative_int:
  "int_value_of t v \<Longrightarrow> IsValueNegative t (IntV v) = (is_signed t \<and> v < 0)"
  by (cases t)
    (auto simp: IsValueNegative_def c_less_def static_cast_def arith_conv_def promote_def is_integral_def
      int_cast_def wrap_signed_def int_value_of_def int_lowest_def int_max_def)

lemma SafeUnsignedAbs_abs:
  assumes "int_value_of t v"
  shows "SafeUnsignedAbs t v = \<bar>v\<bar>"
proof (cases "IsValueNegative t (IntV v)")
  case True
  then have neg: "is_signed t" "v < 0"
    using assms by (simp_all add: IsValueNegative_int)
  have lo: "- (2 ^ (bits (make_unsigned t) - 1)) \<le> v"
    using assms neg by (cases t) (auto simp: int_value_of_def int_lowest_def)
  have w: "0 < bits (make_unsigned t)"
    "bits (make_unsigned t) \<le> bits (arith_conv UInt32 (make_unsigned t))"
    using assms
    by (cases t; simp add: arith_conv_def promote_def is_integral_def int_value_of_def)+
  have u: "\<not> is_signed (make_unsigned t)"
    "\<not> is_signed (arith_conv UInt32 (make_unsigned t))"
    using assms
    by (cases t; simp add: arith_conv_def promote_def is_integral_def int_value_of_def)+
  show ?thesis
    using True neg u wrapped_negation[OF w lo neg(2)]
    by (simp add: SafeUnsignedAbs_def Let_def int_cast_def wrap_unsigned_def)
next
  case False
  then have nn: "0 \<le> v \<or> \<not> is_signed t"
    using assms by (auto simp: IsValueNegative_int)
  have "0 \<le> v" using nn assms by (cases t) (auto simp: int_value_of_def int_lowest_def)
  moreover have "v < 2 ^ bits (make_unsigned t)"
    using assms by (cases t) (auto simp: int_value_of_def int_max_def is_integral_def)
  moreover have "\<not> is_signed (make_unsigned t)"
    using assms by (cases t) (auto simp: int_value_of_def is_integral_def)
  ultimately show ?thesis
    using False by (simp add: SafeUnsignedAbs_def Let_def int_cast_def wrap_unsigned_def)
qed

lemma xor_all_ones:
  fixes x :: int
  assumes "0 \<le> x" "x < 2 ^ w"
  shows "x XOR (2 ^ w - 1) = 2 ^ w - 1 - x"
proof -
  have x: "take_bit w x = x" using assms by (simp add: take_bit_int_eq_self)
  have "take_bit w (NOT x) = take_bit w x XOR mask w"
    by (rule bit_eqI) (auto simp: bit_simps)
  then have "x XOR mask w = mask w - x"
    using x by (simp add: take_bit_not_eq_mask_diff)
  then show ?thesis by (simp add: mask_eq_exp_minus_1)
qed

lemma and_not_mask_int:
  fixes x :: int
  shows "x AND NOT (mask k) = x - x mod 2 ^ k"
proof -
  have "x AND NOT (mask k) = push_bit k (drop_bit k x)"
    by (rule bit_eqI) (auto simp: bit_simps)
  moreover have "push_bit k (drop_bit k x) + take_bit k x = x"
    by (simp add: bits_ident)
  ultimately show ?thesis by (simp add: take_bit_eq_mod)
qed

lemma and_wrapped_not_mask:
  fixes x :: int
  assumes "0 \<le> x" "x < 2 ^ w"
  shows "x AND (NOT (mask k) mod 2 ^ w) = x - x mod 2 ^ k"
proof -
  have x: "take_bit w x = x" using assms by (simp add: take_bit_int_eq_self)
  have "x AND take_bit w (NOT (mask k)) = take_bit w (x AND NOT (mask k))"
    using x by (metis take_bit_and)
  also have "\<dots> = take_bit w (x - x mod 2 ^ k)" by (simp add: and_not_mask_int)
  also have "\<dots> = x - x mod 2 ^ k"
  proof (rule take_bit_int_eq_self)
    have "0 \<le> x mod 2 ^ k" "x mod 2 ^ k \<le> x" using assms(1) by (simp_all add: zmod_le_nonneg_dividend)
    then show "0 \<le> x - x mod 2 ^ k" "x - x mod 2 ^ k < 2 ^ w" using assms by linarith+
  qed
  finally show ?thesis by (simp add: take_bit_eq_mod)
qed

lemma ConditionalNegate_wide:
  assumes s: "is_signed (make_signed t)" "bits (make_signed t) = w"
             "promote (make_signed t) = make_signed t"
    and u: "\<not> is_signed (make_unsigned t)" "bits (make_unsigned t) = w"
           "arith_conv (make_unsigned t) (make_unsigned t) = make_unsigned t"
           "arith_conv (make_unsigned t) Int32 = make_unsigned t"
    and w: "2 \<le> w" and a: "0 \<le> a" "a < 2 ^ w"
  shows "ConditionalNegate t a neg = wrap_signed w ((if neg then 2 ^ w - a else a) mod 2 ^ w)"
proof (cases neg)
  case True
  have p: "(1::int) < 2 ^ (w - 1)" using w by (simp add: one_less_power)
  have one: "wrap_signed w 1 = 1" "wrap_signed w (- 1) = - 1"
    using w p by (intro wrap_signed_id; linarith)+
  have "(1::int) < 2 ^ w" using w by (simp add: one_less_power)
  then have "- (2 ^ w) < (- 1 :: int)" by linarith
  then have "(- 1 :: int) mod 2 ^ w = - 1 + 2 ^ w" by (rule mod_neg_range) simp
  then have m1: "(- 1 :: int) mod 2 ^ w = 2 ^ w - 1" by linarith
  have x: "(2 ^ w - 1) mod 2 ^ w = (2 ^ w - 1 :: int)" using m1 by simp
  have xa: "(2 ^ w - 1 - a) mod 2 ^ w = 2 ^ w - 1 - a"
    using a by (intro mod_pos_pos_trivial) linarith+
  show ?thesis
    using True a
    by (simp add: ConditionalNegate_def Let_def s u int_cast_def wrap_unsigned_def one m1 x
        xor_all_ones xa)
next
  case False
  have z: "wrap_signed w 0 = 0" using w by (intro wrap_signed_id) simp_all
  show ?thesis
    using False a
    by (simp add: ConditionalNegate_def Let_def s u int_cast_def wrap_unsigned_def z)
qed


lemma int_cast_cong:
  assumes "x mod 2 ^ bits t = y mod 2 ^ bits t" "0 < bits t"
  shows "int_cast t x = int_cast t y"
proof -
  have "(x + 2 ^ (bits t - 1)) mod 2 ^ bits t = (y + 2 ^ (bits t - 1)) mod 2 ^ bits t"
    using assms(1) by (rule mod_add_cong) simp
  then show ?thesis using assms(1) by (simp add: int_cast_def wrap_signed_def wrap_unsigned_def)
qed

lemma wrap_signed_mod: "0 < w \<Longrightarrow> wrap_signed w x mod 2 ^ w = x mod 2 ^ w"
proof -
  assume w: "0 < w"
  have e: "(2::int) ^ w = 2 * 2 ^ (w - 1)" using w by (cases w) simp_all
  have "wrap_signed w x mod 2 ^ w = ((x + 2 ^ (w - 1)) mod 2 ^ w - 2 ^ (w - 1)) mod 2 ^ w"
    by (simp add: wrap_signed_def)
  also have "\<dots> = ((x + 2 ^ (w - 1)) - 2 ^ (w - 1)) mod 2 ^ w"
    by (simp add: mod_diff_left_eq)
  finally show ?thesis by simp
qed

lemma int_cast_wrap_signed:
  assumes "bits t \<le> W" "0 < bits t"
  shows "int_cast t (wrap_signed W (x mod 2 ^ W)) = int_cast t x"
proof (rule int_cast_cong)
  have dvd: "(2::int) ^ bits t dvd 2 ^ W" using assms(1) by (rule le_imp_power_dvd)
  have W: "0 < W" using assms by simp
  have "wrap_signed W (x mod 2 ^ W) mod 2 ^ bits t = wrap_signed W (x mod 2 ^ W) mod 2 ^ W mod 2 ^ bits t"
    using dvd by (simp add: mod_mod_cancel)
  also have "\<dots> = x mod 2 ^ W mod 2 ^ bits t"
    using W by (simp add: wrap_signed_mod)
  also have "\<dots> = x mod 2 ^ bits t" using dvd by (simp add: mod_mod_cancel)
  finally show "wrap_signed W (x mod 2 ^ W) mod 2 ^ bits t = x mod 2 ^ bits t" .
qed (rule assms)

section \<open>The narrowing adjustment on integers\<close>

lemma Adjust_int:
  assumes v: "int_value_of dst v" and k: "kShift dst src < digits dst"
  shows "Adjust dst src (IntV v) =
    IntV (if v < 0 then - (\<bar>v\<bar> - \<bar>v\<bar> mod 2 ^ kShift dst src)
          else v - v mod 2 ^ kShift dst src)"
proof -
  define k where "k = kShift dst src"
  define pt where "pt = promote (make_unsigned dst)"
  define W where "W = bits pt"
  define a where "a = \<bar>v\<bar> - \<bar>v\<bar> mod 2 ^ k"
  have int: "is_integral dst" using v by (simp add: int_value_of_def)
  have kd: "k < digits dst" using k by (simp add: k_def)
  have pt_cases: "(pt = Int32 \<and> bits dst \<le> 16) \<or> (\<not> is_signed pt \<and> bits dst = W)"
    using int by (cases dst) (simp_all add: pt_def W_def promote_def is_integral_def)
  have W: "2 \<le> W" "bits dst \<le> W" "0 < bits dst" "digits dst \<le> digits pt" "is_integral pt"
    using int by (cases dst; simp add: pt_def W_def promote_def is_integral_def)+
  have s: "is_signed (make_signed pt)" "bits (make_signed pt) = W"
    "promote (make_signed pt) = make_signed pt"
    using int by (cases dst; simp add: pt_def W_def promote_def is_integral_def)+
  have u: "\<not> is_signed (make_unsigned pt)" "bits (make_unsigned pt) = W"
    "arith_conv (make_unsigned pt) (make_unsigned pt) = make_unsigned pt"
    "arith_conv (make_unsigned pt) Int32 = make_unsigned pt"
    using int by (cases dst; simp add: pt_def W_def promote_def is_integral_def arith_conv_def)+
  have absv: "0 \<le> \<bar>v\<bar>" "\<bar>v\<bar> < 2 ^ W" "int_value_of pt \<bar>v\<bar>"
    using v by (cases dst; simp add: pt_def W_def promote_def is_integral_def int_value_of_def
        int_lowest_def int_max_def; linarith)+
  have p2k: "(2::int) ^ k \<le> 2 ^ digits pt - 1"
  proof -
    have "k < digits pt" using kd W(4) by simp
    then show ?thesis by simp
  qed
  have lo: "int_lowest pt \<le> 0" by (simp add: int_lowest_def)
  have hi: "2 ^ k \<le> int_max pt" using p2k by (simp only: int_max_def)
  have one: "(1::int) \<le> 2 ^ k" by simp
  have in1: "int_value_of pt 1" "int_value_of pt (2 ^ k)" "int_value_of pt (2 ^ k - 1)"
    unfolding int_value_of_def using lo hi one W(5) by (intro conjI; linarith)+
  have shl: "int_cast pt (push_bit k (int_cast pt 1)) = 2 ^ k"
    using in1 by (simp add: int_cast_id push_bit_eq_mult)
  have m1: "int_cast pt (2 ^ k - int_cast pt 1) = mask k"
    using in1 by (simp add: int_cast_id mask_eq_exp_minus_1)
  have a_eq: "int_cast pt \<bar>v\<bar> AND int_cast pt (NOT (mask k)) = a"
    using pt_cases
  proof
    assume c: "pt = Int32 \<and> bits dst \<le> 16"
    have "k < 31" using kd c int by (cases dst) (simp_all add: is_integral_def)
    then have "(2::int) ^ k \<le> 2 ^ 31" by (intro power_increasing) simp_all
    moreover have "\<And>n::int. 0 \<le> n \<Longrightarrow> n \<le> 2 ^ 31 \<Longrightarrow> int_value_of Int32 (- n)"
      by (simp add: int_value_of_def int_lowest_def int_max_def is_integral_def)
    ultimately have "int_value_of Int32 (- (2 ^ k))" by simp
    then have "int_cast pt (NOT (mask k)) = NOT (mask k)"
      using c by (simp add: int_cast_id flip: minus_exp_eq_not_mask)
    then show ?thesis using absv(3) by (simp add: int_cast_id and_not_mask_int a_def)
  next
    assume c: "\<not> is_signed pt \<and> bits dst = W"
    then have "\<not> is_signed pt" by simp
    then have "int_cast pt (NOT (mask k)) = NOT (mask k) mod 2 ^ W"
      by (simp add: int_cast_def wrap_unsigned_def W_def)
    then show ?thesis using absv by (simp add: int_cast_id and_wrapped_not_mask a_def)
  qed
  have a: "0 \<le> a" "a \<le> \<bar>v\<bar>" "a < 2 ^ W"
  proof -
    have "0 \<le> \<bar>v\<bar> mod 2 ^ k" "\<bar>v\<bar> mod 2 ^ k \<le> \<bar>v\<bar>"
      by (simp_all add: zmod_le_nonneg_dividend)
    then show "0 \<le> a" "a \<le> \<bar>v\<bar>" "a < 2 ^ W" using absv(2) unfolding a_def by linarith+
  qed
  have neg: "IsValueNegative dst (IntV v) = (v < 0)"
    using v by (cases dst) (auto simp: IsValueNegative_int int_value_of_def int_lowest_def)
  have CN: "ConditionalNegate pt a (v < 0) = wrap_signed W ((if v < 0 then 2 ^ W - a else a) mod 2 ^ W)"
    using s u W(1) a(1) a(3) by (rule ConditionalNegate_wide)
  have "int_cast dst (ConditionalNegate pt a (v < 0)) = int_cast dst (if v < 0 then 2 ^ W - a else a)"
    unfolding CN using W(2) W(3) by (rule int_cast_wrap_signed)
  also have "\<dots> = int_cast dst (if v < 0 then - a else a)"
  proof (rule int_cast_cong)
    have dvd: "(2::int) ^ bits dst dvd 2 ^ W" using W(2) by (rule le_imp_power_dvd)
    have "(2 ^ W - a) mod 2 ^ bits dst = (- a) mod 2 ^ bits dst"
      using dvd by (metis diff_conv_add_uminus mod_add_cong dvd_imp_mod_0 add.left_neutral mod_0)
    then show "(if v < 0 then 2 ^ W - a else a) mod 2 ^ bits dst = (if v < 0 then - a else a) mod 2 ^ bits dst"
      by simp
  qed (rule W(3))
  also have "\<dots> = (if v < 0 then - a else a)"
  proof (rule int_cast_id)
    have "int_lowest dst \<le> 0" "0 \<le> int_max dst"
      by (simp_all add: int_lowest_def int_max_def)
    then show "int_value_of dst (if v < 0 then - a else a)"
      using v a by (auto simp: int_value_of_def)
  qed
  finally have res: "int_cast dst (ConditionalNegate pt a (v < 0)) = (if v < 0 then - a else a)" .
  have "Adjust dst src (IntV v) = IntV (int_cast dst (ConditionalNegate pt a (v < 0)))"
    using int v shl m1 a_eq neg
    by (simp add: Adjust_def Let_def SafeUnsignedAbs_abs flip: k_def pt_def)
  then show ?thesis using res by (auto simp: a_def k_def)
qed

section \<open>Classification of integer sources for integer destinations\<close>

lemma kShift_int: "is_integral dst \<Longrightarrow> is_integral src \<Longrightarrow> kShift dst src = 0"
  by (cases dst; cases src; simp add: kShift_def kMaxExponent_def is_integral_def)

lemma Adjust_int_pair:
  assumes "int_value_of dst v" "is_integral src"
  shows "Adjust dst src (IntV v) = IntV v"
proof -
  have k: "kShift dst src = 0" using assms by (simp add: kShift_int int_value_of_def)
  have "kShift dst src < digits dst" using assms(1) unfolding k by (cases dst) (simp_all add: int_value_of_def is_integral_def)
  from Adjust_int[OF assms(1) this] show ?thesis by (simp add: k)
qed

lemma int_limits_values:
  "is_integral t \<Longrightarrow> int_value_of t (int_max t)" "is_integral t \<Longrightarrow> int_value_of t (int_lowest t)"
  by (cases t; simp add: int_value_of_def int_max_def int_lowest_def)+

lemma NarrowingRange_int:
  assumes "is_integral dst" "is_integral src"
    and "lim_max (B dst) = IntV (int_max dst)" "lim_lowest (B dst) = IntV (int_lowest dst)"
  shows "NarrowingRange_max dst src B = IntV (int_max dst)"
    and "NarrowingRange_lowest dst src B = IntV (int_lowest dst)"
  using assms by (simp_all add: NarrowingRange_max_def NarrowingRange_lowest_def Adjust_int_pair int_limits_values)

lemma int_cast_simps:
  "- 128 \<le> v \<Longrightarrow> v \<le> 127 \<Longrightarrow> int_cast Int8 v = v"
  "- 32768 \<le> v \<Longrightarrow> v \<le> 32767 \<Longrightarrow> int_cast Int16 v = v"
  "- 2147483648 \<le> v \<Longrightarrow> v \<le> 2147483647 \<Longrightarrow> int_cast Int32 v = v"
  "- 9223372036854775808 \<le> v \<Longrightarrow> v \<le> 9223372036854775807 \<Longrightarrow> int_cast Int64 v = v"
  "0 \<le> v \<Longrightarrow> v \<le> 255 \<Longrightarrow> int_cast UInt8 v = v"
  "0 \<le> v \<Longrightarrow> v \<le> 65535 \<Longrightarrow> int_cast UInt16 v = v"
  "0 \<le> v \<Longrightarrow> v \<le> 4294967295 \<Longrightarrow> int_cast UInt32 v = v"
  "0 \<le> v \<Longrightarrow> v \<le> 18446744073709551615 \<Longrightarrow> int_cast UInt64 v = v"
  by (rule int_cast_id; simp add: int_value_of_def int_lowest_def int_max_def is_integral_def)+

lemma classify_int:
  assumes v: "int_value_of src v" and d: "is_integral dst"
    and B: "lim_max (B dst) = IntV (int_max dst)" "lim_lowest (B dst) = IntV (int_lowest dst)"
  shows "DstRangeRelationToSrcRange dst B src (IntV v) =
    RangeCheck_ctor (int_lowest dst \<le> v) (v \<le> int_max dst)"
proof -
  have s: "is_integral src" using v by (simp add: int_value_of_def)
  note NR = NarrowingRange_int[where B=B and dst=dst and src=src, OF d s B]
  show ?thesis
    using v d NR
    apply (cases dst; cases src)
    apply (simp_all add: DstRangeRelationToSrcRange_def representation_def
        kStaticDstRangeRelationToSrcRange_def kMaxExponent_def is_integral_def
        c_le_def c_ge_def c_eq_def val_le_def static_cast_def arith_conv_def promote_def int_cast_simps
        int_value_of_def int_lowest_def int_max_def numeric_limits_def RangeCheck_ctor_def)
    apply auto
    done
qed

lemma contained_int_range:
  assumes "kStaticDstRangeRelationToSrcRange dst src = kContained" "int_value_of src v" "is_integral dst"
  shows "int_value_of dst v"
  using assms
  by (cases dst; cases src)
    (auto simp: kStaticDstRangeRelationToSrcRange_def representation_def kMaxExponent_def
      int_value_of_def int_lowest_def int_max_def is_integral_def)

lemma wrap_signed_range:
  assumes "0 < w"
  shows "- (2 ^ (w - 1)) \<le> wrap_signed w v" "wrap_signed w v < 2 ^ (w - 1)"
proof -
  have e: "(2::int) ^ w = 2 * 2 ^ (w - 1)" using assms by (cases w) simp_all
  have "0 \<le> (v + 2 ^ (w - 1)) mod 2 ^ w" "(v + 2 ^ (w - 1)) mod 2 ^ w < 2 ^ w"
    by simp_all
  then show "- (2 ^ (w - 1)) \<le> wrap_signed w v" "wrap_signed w v < 2 ^ (w - 1)"
    unfolding wrap_signed_def using e by linarith+
qed

lemma int_cast_value: "is_integral t \<Longrightarrow> int_value_of t (int_cast t v)"
proof (cases "is_signed t")
  case True
  assume i: "is_integral t"
  have w: "0 < bits t" "digits t = bits t - 1" using i True by (cases t; simp add: is_integral_def)+
  show ?thesis using wrap_signed_range[OF w(1), of v] True i
    by (simp add: int_cast_def int_value_of_def int_lowest_def int_max_def w(2))
next
  case False
  assume i: "is_integral t"
  have w: "digits t = bits t" using i False by (cases t; simp add: is_integral_def)+
  have "0 \<le> v mod 2 ^ bits t" "v mod 2 ^ bits t < 2 ^ bits t" by simp_all
  then show ?thesis using False i
    by (simp add: int_cast_def wrap_unsigned_def int_value_of_def int_lowest_def int_max_def w)
qed

lemma int_cast_eq_iff: "is_integral t \<Longrightarrow> (int_cast t v = v) = int_value_of t v"
  using int_cast_value[of t v] int_cast_id[of t v] by auto

lemma as_unsigned_signed:
  assumes "int_value_of t v" "is_signed t"
  shows "int_cast (make_unsigned t) v = (if v < 0 then v + 2 ^ bits t else v)"
proof -
  have u: "\<not> is_signed (make_unsigned t)" "bits (make_unsigned t) = bits t" "0 < bits t"
    using assms by (cases t; simp add: int_value_of_def is_integral_def)+
  have r: "- (2 ^ (bits t - 1)) \<le> v" "v < 2 ^ (bits t - 1)"
    using assms by (cases t; simp add: int_value_of_def is_integral_def int_lowest_def int_max_def)+
  have e: "(2::int) ^ bits t = 2 * 2 ^ (bits t - 1)" using u(3) by (cases "bits t") simp_all
  have p: "(0::int) < 2 ^ (bits t - 1)" by simp
  show ?thesis
  proof (cases "v < 0")
    case True
    have "- (2 ^ bits t) < v" using r p e by linarith
    then have "v mod 2 ^ bits t = v + 2 ^ bits t" using True by (rule mod_neg_range)
    then show ?thesis using True u by (simp add: int_cast_def wrap_unsigned_def)
  next
    case False
    have "v < 2 ^ bits t" using r p e by linarith
    then show ?thesis using False u by (simp add: int_cast_def wrap_unsigned_def)
  qed
qed

lemma in_range_fast_int:
  assumes v: "int_value_of src v" and d: "is_integral dst"
  shows "IsValueInRangeForNumericType dst src (IntV v) = (int_lowest dst \<le> v \<and> v \<le> int_max dst)"
proof -
  have s: "is_integral src" using v by (simp add: int_value_of_def)
  have c: "DstRangeRelationToSrcRange dst numeric_limits src (IntV v) =
    RangeCheck_ctor (int_lowest dst \<le> v) (v \<le> int_max dst)"
    using v d by (rule classify_int) (use d in \<open>simp_all add: numeric_limits_def is_integral_def\<close>)
  have id: "static_cast src src (IntV v) = IntV v" by (simp add: static_cast_def)
  show ?thesis
  proof (cases "IsValueInRangeFastOp_is_supported dst src")
    case False
    then show ?thesis
      unfolding IsValueInRangeForNumericType_def Let_def id c
      by (auto simp: IsValid_def RangeCheck_ctor_def)
  next
    case True
    then have ss: "is_signed src" by (auto simp: IsValueInRangeFastOp_is_supported_def signed_integral_def)
    show ?thesis
    proof (cases "is_signed dst")
      case sd: True
      have "c_eq src (IntV v) dst (static_cast dst src (IntV v)) = (int_cast dst v = v)"
        using v d ss sd True int_cast_value[OF d, of v]
        apply (cases dst; cases src)
        apply (auto simp: c_eq_def static_cast_def arith_conv_def promote_def is_integral_def IsValueInRangeFastOp_is_supported_def 
            kIsTypeInRangeForNumericType_def kStaticDstRangeRelationToSrcRange_def representation_def kMaxExponent_def signed_integral_def unsigned_integral_def
            int_value_of_def int_lowest_def int_max_def int_cast_simps)
        done
      then have "IsValueInRangeFastOp_Do dst src (IntV v) = int_value_of dst v"
        using d sd by (simp add: IsValueInRangeFastOp_Do_def signed_integral_def int_cast_eq_iff)
      then show ?thesis
        unfolding IsValueInRangeForNumericType_def Let_def id
        using True d by (simp add: int_value_of_def)
    next
      case ud: False
      have "c_le (make_unsigned src) (as_unsigned src (IntV v))
                 (make_unsigned src) (as_unsigned src (kCommonMax src dst))
            = (0 \<le> v \<and> v \<le> int_max dst)"
        using v d ss ud True as_unsigned_signed[OF v ss]
        apply (cases dst; cases src)
        apply (auto simp: c_le_def val_le_def static_cast_def arith_conv_def promote_def is_integral_def as_unsigned_def
            kCommonMax_def kIsMaxInRangeForNumericType_def IsGreaterOrEqual_Test_def numeric_limits_def
            int_value_of_def int_lowest_def int_max_def int_cast_def wrap_unsigned_def wrap_signed_def)
        done
      then have "IsValueInRangeFastOp_Do dst src (IntV v) = (0 \<le> v \<and> v \<le> int_max dst)"
        using d ud by (simp add: IsValueInRangeFastOp_Do_def signed_integral_def)
      then show ?thesis
        unfolding IsValueInRangeForNumericType_def Let_def id
        using True d ud by (simp add: int_lowest_def)
    qed
  qed
qed

lemma default_limits_int:
  "is_integral t \<Longrightarrow> lim_max (SaturationDefaultLimits t) = IntV (int_max t)"
  "is_integral t \<Longrightarrow> lim_lowest (SaturationDefaultLimits t) = IntV (int_lowest t)"
  "is_integral t \<Longrightarrow> Overflow (SaturationDefaultLimits t) = IntV (int_max t)"
  "is_integral t \<Longrightarrow> Underflow (SaturationDefaultLimits t) = IntV (int_lowest t)"
  "is_integral t \<Longrightarrow> NaN (SaturationDefaultLimits t) = IntV 0"
  by (cases t; simp add: SaturationDefaultLimits_def numeric_limits_def has_infinity_def has_quiet_NaN_def
      is_integral_def static_cast_def int_cast_def wrap_signed_def wrap_unsigned_def)+

lemma static_cast_int_id:
  "int_value_of t v \<Longrightarrow> static_cast t s (IntV v) = IntV v"
  by (simp add: static_cast_def int_cast_id int_value_of_def is_integral_def)

lemma general_path_int:
  assumes v: "int_value_of src v" and d: "is_integral dst"
    and B: "lim_max (S dst) = IntV (int_max dst)" "lim_lowest (S dst) = IntV (int_lowest dst)"
  shows "saturated_cast_impl dst S src (IntV v) (DstRangeRelationToSrcRange dst S src (IntV v)) =
    (if v < int_lowest dst then Underflow (S dst)
     else if int_max dst < v then Overflow (S dst) else IntV v)"
proof -
  have c: "DstRangeRelationToSrcRange dst S src (IntV v) =
    RangeCheck_ctor (int_lowest dst \<le> v) (v \<le> int_max dst)"
    using v d B by (rule classify_int)
  have s: "is_integral src" using v by (simp add: int_value_of_def)
  have le: "int_lowest dst \<le> int_max dst" by (cases dst) (simp_all add: int_lowest_def int_max_def)
  have id: "int_lowest dst \<le> v \<Longrightarrow> v \<le> int_max dst \<Longrightarrow> static_cast dst src (IntV v) = IntV v"
    using d by (intro static_cast_int_id) (simp add: int_value_of_def)
  show ?thesis
    unfolding c saturated_cast_impl_def
    using s le id
    by (auto simp: RangeCheck_ctor_def IsOverflowFlagSet_def IsUnderflowFlagSet_def)
qed

lemma fast_path_int:
  assumes v: "int_value_of src v" and d: "is_integral dst"
  shows "SaturateFastOp_Do dst src (IntV v) =
    (if v < int_lowest dst then IntV (int_lowest dst)
     else if int_max dst < v then IntV (int_max dst) else IntV v)"
proof (cases "int_lowest dst \<le> v \<and> v \<le> int_max dst")
  case True
  then have "static_cast dst src (IntV v) = IntV v"
    using d by (intro static_cast_int_id) (simp add: int_value_of_def)
  then show ?thesis
    using True by (simp add: SaturateFastOp_Do_def in_range_fast_int[OF v d])
next
  case False
  have neg: "IsValueNegative src (IntV v) = (is_signed src \<and> v < 0)"
    using v by (rule IsValueNegative_int)
  have "CommonMaxOrMin dst src
          (kIsMaxInRangeForNumericType dst src \<or>
           (\<not> kIsMinInRangeForNumericType dst src \<and> (is_signed src \<and> v < 0))) =
        (if v < int_lowest dst then IntV (int_lowest dst) else IntV (int_max dst))"
    using v d False
    apply (cases dst; cases src)
    apply (auto simp: CommonMaxOrMin_def kCommonMin_def kCommonMax_def static_cast_def kIsMaxInRangeForNumericType_def
        kIsMinInRangeForNumericType_def IsGreaterOrEqual_Test_def IsLessOrEqual_Test_def val_le_def
        numeric_limits_def int_value_of_def int_lowest_def int_max_def is_integral_def)
    done
  then show ?thesis
    using False by (auto simp: SaturateFastOp_Do_def in_range_fast_int[OF v d] neg)
qed

section \<open>Conversion of integers to floating point\<close>

lemma bitlen_of_bounds:
  assumes "0 < N" "2 ^ (N - 1) \<le> a" "a < 2 ^ N"
  shows "bitlen a = int N"
proof (rule antisym)
  show "bitlen a \<le> int N" using assms(3) by (simp add: bitlen_le_iff_power)
  show "int N \<le> bitlen a" using assms(1,2) by (simp add: bitlen_ge_iff_power)
qed

lemma fp_max_large: "is_floating_point t \<Longrightarrow> 2 ^ 65 \<le> fp_max t"
  by (cases t) (simp_all add: fp_max_def)

lemma round_half_even_of_int: "round_half_even (of_int k) = k"
  by (simp add: round_half_even_def)

lemma round_half_even_div:
  assumes "0 < s"
  shows "round_half_even (of_int a / 2 ^ s) =
    (let q = a div 2 ^ s; r = a mod 2 ^ s; h = 2 ^ (s - 1) in
     if r < h then q else if h < r then q + 1 else if even q then q else q + 1)"
proof -
  define q where "q = a div 2 ^ s"
  define r where "r = a mod 2 ^ s"
  have a: "a = q * 2 ^ s + r" unfolding q_def r_def by (rule div_mult_mod_eq[symmetric])
  have e: "(2::int) ^ s = 2 * 2 ^ (s - 1)" using assms by (cases s) simp_all
  have fl: "\<lfloor>(of_int a :: rat) / 2 ^ s\<rfloor> = q"
    unfolding q_def by (metis floor_divide_of_int_eq of_int_numeral of_int_power)
  have fr: "(of_int a :: rat) / 2 ^ s - of_int q = of_int r / 2 ^ s"
    unfolding a by (simp add: field_simps)
  have c1: "((of_int r :: rat) / 2 ^ s < 1 / 2) = (r < 2 ^ (s - 1))"
  proof -
    have "((of_int r :: rat) / 2 ^ s < 1 / 2) = ((of_int (2 * r) :: rat) < of_int (2 ^ s))"
      by (simp add: field_simps)
    also have "\<dots> = (2 * r < 2 ^ s)" by (simp only: of_int_less_iff)
    finally show ?thesis using e by simp
  qed
  have c2: "(1 / 2 < (of_int r :: rat) / 2 ^ s) = (2 ^ (s - 1) < r)"
  proof -
    have "(1 / 2 < (of_int r :: rat) / 2 ^ s) = ((of_int (2 ^ s) :: rat) < of_int (2 * r))"
      by (simp add: field_simps)
    also have "\<dots> = (2 ^ s < 2 * r)" by (simp only: of_int_less_iff)
    finally show ?thesis using e by simp
  qed
  show ?thesis
    unfolding round_half_even_def Let_def fl fr c1 c2
    by (simp add: q_def r_def)
qed


lemma round_integer_bounds:
  assumes "0 \<le> a" "a < 2 ^ N"
  shows "0 \<le> round_integer d N a" "round_integer d N a \<le> 2 ^ N"
proof -
  show "0 \<le> round_integer d N a"
    using assms(1) by (auto simp: round_integer_def Let_def pos_imp_zdiv_nonneg_iff)
  show "round_integer d N a \<le> 2 ^ N"
  proof (cases "N \<le> d")
    case True
    then show ?thesis using assms by (simp add: round_integer_def)
  next
    case False
    define s where "s = N - d"
    have N: "N = d + s" using False by (simp add: s_def)
    have "a < 2 ^ d * 2 ^ s" using assms(2) by (simp add: N power_add)
    moreover have "a = a div 2 ^ s * 2 ^ s + a mod 2 ^ s" by (rule div_mult_mod_eq[symmetric])
    moreover have "0 \<le> a mod 2 ^ s" by simp
    ultimately have lt: "a div 2 ^ s * 2 ^ s < 2 ^ d * 2 ^ s" by linarith
    have q: "a div 2 ^ s < 2 ^ d"
    proof (rule ccontr)
      assume "\<not> a div 2 ^ s < 2 ^ d"
      then have "2 ^ d * (2::int) ^ s \<le> a div 2 ^ s * 2 ^ s"
        by (intro mult_right_mono) simp_all
      then show False using lt by linarith
    qed
    have "(a div 2 ^ s + 1) * 2 ^ s \<le> 2 ^ d * (2::int) ^ s"
      using q by (intro mult_right_mono) simp_all
    moreover have "a div 2 ^ s * 2 ^ s \<le> (a div 2 ^ s + 1) * (2::int) ^ s"
      by (intro mult_right_mono) simp_all
    ultimately show ?thesis
      using False by (auto simp: round_integer_def Let_def power_add N simp flip: s_def)
  qed
qed

lemma fp_round_of_int_wide:
  assumes t: "is_floating_point t" and N: "0 < N"
    and a: "2 ^ (N - 1) \<le> a" "a < 2 ^ N"
    and fit: "(of_int (round_integer (digits t) N a) :: rat) \<le> fp_max t"
  shows "fp_round t (of_int a) = Fin (of_int (round_integer (digits t) N a))"
    and "fp_round t (of_int (- a)) = Fin (of_int (- round_integer (digits t) N a))"
proof -
  define d where "d = digits t"
  define u where "u = pow2 (int N - int d)"
  define R where "R = round_integer d N a"
  have "(0::int) < 2 ^ (N - 1)" by simp
  then have pos: "0 < a" using a(1) by linarith
  have ex: "fp_exponent (of_int a) = int N"
    using pos bitlen_of_bounds[OF N(1) a] by (simp add: fp_exponent_def)
  have me: "min_exponent t \<le> 0" using t by (cases t) (simp_all add: min_exponent_def)
  have e: "max (fp_exponent (of_int a)) (min_exponent t) = int N"
    using ex me N(1) by simp
  have r: "of_int (round_half_even (of_int a / u)) * u = (of_int R :: rat)"
  proof (cases "N \<le> d")
    case True
    have u: "u = 1 / 2 ^ (d - N)"
      using True by (auto simp: u_def pow2_def nat_diff_distrib)
    have "(of_int a :: rat) / u = of_int (a * 2 ^ (d - N))" by (simp add: u)
    then have "round_half_even (of_int a / u) = a * 2 ^ (d - N)"
      by (simp only: round_half_even_of_int)
    then show ?thesis using True by (simp add: u R_def round_integer_def)
  next
    case False
    then have s: "0 < N - d" by simp
    have u: "u = 2 ^ (N - d)"
      using False by (auto simp: u_def pow2_def nat_diff_distrib)
    show ?thesis
      using False unfolding u round_half_even_div[OF s] R_def round_integer_def Let_def
      by simp
  qed
  have no: "\<not> fp_max t < (of_int R :: rat)" using fit by (simp add: R_def d_def)
  have nz: "(of_int a :: rat) \<noteq> 0" "(of_int (- a) :: rat) \<noteq> 0" using pos by simp_all
  have ab: "\<bar>of_int a :: rat\<bar> = of_int a" "\<bar>of_int (- a) :: rat\<bar> = of_int a"
    using pos by simp_all
  have sg: "\<not> (of_int a :: rat) < 0" "(of_int (- a) :: rat) < 0" using pos by simp_all
  show "fp_round t (of_int a) = Fin (of_int (round_integer (digits t) N a))"
    unfolding fp_round_def Let_def ab e
    using nz(1) sg(1) no r by (simp add: u_def d_def R_def)
  show "fp_round t (of_int (- a)) = Fin (of_int (- round_integer (digits t) N a))"
    unfolding fp_round_def Let_def ab e
    using nz(2) sg(2) no r by (simp add: u_def d_def R_def)
qed

lemma fp_round_of_int:
  assumes t: "is_floating_point t" and N: "0 < N" "N \<le> 65"
    and a: "2 ^ (N - 1) \<le> a" "a < 2 ^ N"
  shows "fp_round t (of_int a) = Fin (of_int (round_integer (digits t) N a))"
    and "fp_round t (of_int (- a)) = Fin (of_int (- round_integer (digits t) N a))"
proof -
  define R where "R = round_integer (digits t) N a"
  have "(0::int) < 2 ^ (N - 1)" by simp
  then have pos: "0 < a" using a(1) by linarith
  have Rb: "0 \<le> R" "R \<le> 2 ^ N"
    using round_integer_bounds[of a N "digits t"] pos a(2) by (simp_all add: R_def)
  have "(2::int) ^ N \<le> 2 ^ 65" using N(2) by (intro power_increasing) simp_all
  then have "R \<le> 2 ^ 65" using Rb(2) by linarith
  then have "(of_int R :: rat) \<le> of_int (2 ^ 65)" by (simp only: of_int_le_iff)
  then have fit: "(of_int R :: rat) \<le> fp_max t" using fp_max_large[OF t] by simp
  show "fp_round t (of_int a) = Fin (of_int (round_integer (digits t) N a))"
    and "fp_round t (of_int (- a)) = Fin (of_int (- round_integer (digits t) N a))"
    using fp_round_of_int_wide[OF t N(1) a] fit by (simp_all add: R_def)
qed

lemma round_integer_exact:
  assumes a: "2 ^ (N - 1) \<le> a" "a < 2 ^ N" and N: "0 < N"
    and m: "a mod 2 ^ s = 0" "a < 2 ^ (d + s)"
  shows "round_integer d N a = a"
proof (cases "N \<le> d")
  case True
  then show ?thesis by (simp add: round_integer_def)
next
  case False
  define s' where "s' = N - d"
  have s'pos: "0 < s'" using False by (simp add: s'_def)
  have "(2::int) ^ (N - 1) < 2 ^ (d + s)" using a(1) m(2) by linarith
  then have "N - 1 < d + s" by (simp add: power_strict_increasing_iff)
  then have le: "s' \<le> s" using False by (simp add: s'_def)
  have "(2::int) ^ s' dvd 2 ^ s" using le by (rule le_imp_power_dvd)
  moreover have "(2::int) ^ s dvd a" using m(1) by (simp add: dvd_eq_mod_eq_0)
  ultimately have dv: "(2::int) ^ s' dvd a" by (rule dvd_trans)
  then have r: "a mod 2 ^ s' = 0" by (simp add: dvd_eq_mod_eq_0)
  have h: "(0::int) < 2 ^ (s' - 1)" by simp
  have "a div 2 ^ s' * 2 ^ s' = a" using dv by simp
  then show ?thesis
    using False r h by (simp add: round_integer_def Let_def flip: s'_def)
qed

lemma nat_bitlen_bounds:
  assumes "0 < a"
  shows "0 < nat (bitlen a)" "2 ^ (nat (bitlen a) - 1) \<le> a" "a < 2 ^ nat (bitlen a)"
proof -
  have b: "2 ^ nat (bitlen a - 1) \<le> a \<and> a < 2 ^ nat (bitlen a)" using assms by (rule bitlen_bounds)
  have p: "0 < bitlen a" using assms bitlen_eq_zero_iff[of a] bitlen_nonneg[of a] by linarith
  then show "0 < nat (bitlen a)" by simp
  have "nat (bitlen a - 1) = nat (bitlen a) - 1" using p by (simp add: nat_diff_distrib)
  then show "2 ^ (nat (bitlen a) - 1) \<le> a" using b by simp
  show "a < 2 ^ nat (bitlen a)" using b by simp
qed

lemma bitlen_le_65:
  assumes "0 < a" "a < 2 ^ 65"
  shows "nat (bitlen a) \<le> 65"
proof -
  have "bitlen a \<le> 65" using assms(2) by (simp add: bitlen_le_iff_power)
  then show ?thesis by simp
qed

text \<open>An integer with at most \<open>d\<close> significant bits is converted exactly.\<close>

lemma fp_round_exact:
  assumes t: "is_floating_point t" and a: "0 \<le> a" "a < 2 ^ 65"
    and m: "a mod 2 ^ s = 0" "a < 2 ^ (digits t + s)"
  shows "fp_round t (of_int a) = Fin (of_int a)"
    and "fp_round t (of_int (- a)) = Fin (of_int (- a))"
proof -
  have "fp_round t (of_int a) = Fin (of_int a) \<and> fp_round t (of_int (- a)) = Fin (of_int (- a))"
  proof (cases "a = 0")
    case True
    then show ?thesis by (simp add: fp_round_def)
  next
    case False
    then have pos: "0 < a" using a(1) by simp
    note b = nat_bitlen_bounds[OF pos]
    have N: "nat (bitlen a) \<le> 65" using pos a(2) by (rule bitlen_le_65)
    have "round_integer (digits t) (nat (bitlen a)) a = a"
      using b(2) b(3) b(1) m by (rule round_integer_exact)
    then show ?thesis
      using fp_round_of_int[OF t b(1) N b(2) b(3)] by simp
  qed
  then show "fp_round t (of_int a) = Fin (of_int a)"
    and "fp_round t (of_int (- a)) = Fin (of_int (- a))" by simp_all
qed

text \<open>Every integer of at most 65 bits is converted to a finite value of at most 65 bits.\<close>

lemma fp_round_finite:
  assumes t: "is_floating_point t" and a: "\<bar>a\<bar> < 2 ^ 65"
  shows "\<exists>x. fp_round t (of_int a) = Fin (of_int x) \<and> \<bar>x\<bar> \<le> 2 ^ 65 \<and> (0 \<le> a \<longrightarrow> 0 \<le> x) \<and> (a \<le> 0 \<longrightarrow> x \<le> 0)"
proof (cases "a = 0")
  case True
  then show ?thesis by (intro exI[of _ 0]) (simp add: fp_round_def)
next
  case False
  define b where "b = \<bar>a\<bar>"
  have pos: "0 < b" using False by (simp add: b_def)
  note bb = nat_bitlen_bounds[OF pos]
  have N: "nat (bitlen b) \<le> 65" using pos a by (intro bitlen_le_65) (simp_all add: b_def)
  define R where "R = round_integer (digits t) (nat (bitlen b)) b"
  have Rb: "0 \<le> R" "R \<le> 2 ^ nat (bitlen b)"
    using round_integer_bounds[of b "nat (bitlen b)" "digits t"] pos bb(3) by (simp_all add: R_def)
  have "(2::int) ^ nat (bitlen b) \<le> 2 ^ 65" using N by (intro power_increasing) simp_all
  then have R65: "R \<le> 2 ^ 65" using Rb(2) by linarith
  note fr = fp_round_of_int[OF t bb(1) N bb(2) bb(3)]
  show ?thesis
  proof (cases "0 < a")
    case True
    then have "a = b" by (simp add: b_def)
    then show ?thesis using fr(1) Rb(1) R65 True by (intro exI[of _ R]) (simp add: R_def)
  next
    case neg: False
    then have "a = - b" using False by (simp add: b_def)
    then show ?thesis using fr(2) Rb(1) R65 neg False by (intro exI[of _ "- R"]) (simp add: R_def)
  qed
qed

text \<open>One less than a power of two beyond the mantissa is rounded up to the power.\<close>

lemma fp_round_max_up:
  assumes t: "is_floating_point t" and n: "digits t < n" "n \<le> 64"
  shows "fp_round t (of_int (2 ^ n - 1)) = Fin (of_int (2 ^ n))"
proof -
  define d where "d = digits t"
  define s where "s = n - d"
  have s: "0 < s" "n = d + s" using n(1) by (simp_all add: s_def d_def)
  have dpos: "0 < d" using t by (cases t) (simp_all add: d_def)
  have npos: "0 < n" using n(1) by simp
  have e: "(2::int) ^ n = 2 * 2 ^ (n - 1)" using npos by (cases n) simp_all
  have "(1::int) \<le> 2 ^ (n - 1)" by simp
  then have a1: "2 ^ (n - 1) \<le> (2::int) ^ n - 1"
    using e by linarith
  have a2: "(2::int) ^ n - 1 < 2 ^ n" by simp
  have N: "n \<le> 65" using n(2) by simp
  have dec: "(2::int) ^ n - 1 = (2 ^ d - 1) * 2 ^ s + (2 ^ s - 1)"
    by (simp add: s(2) power_add algebra_simps)
  have small: "((2::int) ^ s - 1) div 2 ^ s = 0" "((2::int) ^ s - 1) mod 2 ^ s = 2 ^ s - 1"
    by (rule div_pos_pos_trivial mod_pos_pos_trivial; simp)+
  have "((2 ^ d - 1) * 2 ^ s + (2 ^ s - 1)) div (2::int) ^ s = (2 ^ d - 1) + (2 ^ s - 1) div 2 ^ s"
    by (rule div_mult_self3) simp
  then have q: "((2::int) ^ n - 1) div 2 ^ s = 2 ^ d - 1"
    unfolding dec small by simp
  have "((2 ^ d - 1) * 2 ^ s + (2 ^ s - 1)) mod (2::int) ^ s = (2 ^ s - 1) mod 2 ^ s"
    by (rule mod_mult_self3)
  then have r: "((2::int) ^ n - 1) mod 2 ^ s = 2 ^ s - 1"
    unfolding dec small .
  have es: "(2::int) ^ s = 2 * 2 ^ (s - 1)" using s(1) by (cases s) simp_all
  have "(1::int) \<le> 2 ^ (s - 1)" by simp
  then have h1: "\<not> (2::int) ^ s - 1 < 2 ^ (s - 1)"
    using es by linarith
  have odd: "odd ((2::int) ^ d - 1)" using dpos by simp
  have nd: "\<not> n \<le> d" using n(1) by (simp add: d_def)
  have "round_integer d n (2 ^ n - 1) =
      (if (2::int) ^ s - 1 < 2 ^ (s - 1) then 2 ^ d - 1
       else if 2 ^ (s - 1) < (2::int) ^ s - 1 then 2 ^ d - 1 + 1
       else if even ((2::int) ^ d - 1) then 2 ^ d - 1 else 2 ^ d - 1 + 1) * 2 ^ s"
    unfolding round_integer_def Let_def s_def[symmetric] q r using nd by simp
  also have "\<dots> = 2 ^ d * 2 ^ s" using h1 odd by simp
  finally have "round_integer d n (2 ^ n - 1) = 2 ^ n" by (simp add: s(2) power_add)
  then show ?thesis
    using fp_round_of_int(1)[OF t npos N a1 a2] by (simp add: d_def)
qed

section \<open>Absolute value\<close>

text \<open>
  Claim C10. For every value \<open>v\<close> of an integer type \<open>t\<close>, \<open>SafeUnsignedAbs\<close> returns
  the mathematical absolute value of \<open>v\<close>, and that is a value of the unsigned type of
  the same width, also for the lowest value of a signed type; the subtraction that
  computes it is evaluated in an unsigned type, so it wraps and no signed overflow
  occurs; for an unsigned type the value is returned unchanged.
\<close>

theorem SafeUnsignedAbs_exact:
  assumes "int_value_of t v"
  shows "SafeUnsignedAbs t v = \<bar>v\<bar>
    \<and> int_value_of (make_unsigned t) (SafeUnsignedAbs t v)
    \<and> unsigned_integral (arith_conv UInt32 (make_unsigned t))
    \<and> SafeUnsignedAbs t v = (if is_signed t then \<bar>v\<bar> else v)"
proof -
  have abs: "SafeUnsignedAbs t v = \<bar>v\<bar>" using assms by (rule SafeUnsignedAbs_abs)
  have "int_value_of (make_unsigned t) \<bar>v\<bar>"
    using assms
    by (cases t; simp add: int_value_of_def int_lowest_def int_max_def is_integral_def; linarith)
  moreover have "unsigned_integral (arith_conv UInt32 (make_unsigned t))"
    using assms
    by (cases t)
      (simp_all add: unsigned_integral_def arith_conv_def promote_def is_integral_def
        int_value_of_def)
  moreover have "\<not> is_signed t \<Longrightarrow> \<bar>v\<bar> = v"
    using assms by (cases t) (simp_all add: int_value_of_def int_lowest_def)
  ultimately show ?thesis using abs by auto
qed

theorem SafeUnsignedAbs_exact_witness:
  "int_value_of Int8 (- 128) \<and> SafeUnsignedAbs Int8 (- 128) = 128
   \<and> int_value_of UInt8 (SafeUnsignedAbs Int8 (- 128))
   \<and> int_value_of UInt8 200 \<and> SafeUnsignedAbs UInt8 200 = 200"
proof -
  have a: "int_value_of Int8 (- 128)" and b: "int_value_of UInt8 200"
    by (simp_all add: int_value_of_def int_lowest_def int_max_def is_integral_def)
  show ?thesis
    using a b SafeUnsignedAbs_exact [OF a] SafeUnsignedAbs_exact [OF b] by auto
qed

section \<open>Resolution of the range check\<close>

lemma value_of_static_cast_self: "static_cast t t v = v"
  by (simp add: static_cast_def)

lemma value_of_int: "is_integral src \<Longrightarrow> value_of src value \<Longrightarrow> \<exists>v. value = IntV v \<and> int_value_of src v"
  by (cases "value"; cases "(case value of FltV f \<Rightarrow> f | _ \<Rightarrow> FNaN)") (auto simp: is_integral_def)

lemma fast_equals_general:
  assumes "SaturateFastOp_is_supported dst src" "value_of src value"
  shows "SaturateFastOp_Do dst src value =
    saturated_cast_impl dst SaturationDefaultLimits src value
      (DstRangeRelationToSrcRange dst SaturationDefaultLimits src value)"
proof -
  have i: "is_integral src" "is_integral dst"
    using assms(1) by (simp_all add: SaturateFastOp_is_supported_def)
  obtain v where v: "value = IntV v" "int_value_of src v"
    using value_of_int[OF i(1) assms(2)] by blast
  show ?thesis
    unfolding v(1) fast_path_int[OF v(2) i(2)]
      general_path_int[where S=SaturationDefaultLimits, OF v(2) i(2) default_limits_int(1,2)[OF i(2)]]
    using i(2) by (simp add: default_limits_int)
qed

text \<open>
  Claim C1. For a value of an arithmetic source type and a range check, the cast resolves
  the result in this order: with the overflow flag clear, the value converted to the
  destination when the underflow flag is clear too, and the handler's \<open>Underflow\<close>
  otherwise; with the overflow flag set, the handler's \<open>NaN\<close> when the source is a
  floating-point type and the underflow flag is set too, and the handler's \<open>Overflow\<close>
  in every other case. \<open>saturated_cast\<close> returns this resolution of the check the
  classifier produced for the value, on the accelerated path as on the general one.
\<close>

theorem saturated_cast_resolution:
  assumes "value_of src value"
  shows "saturated_cast_impl dst S src value c =
      (if \<not> IsOverflowFlagSet c
       then (if \<not> IsUnderflowFlagSet c then static_cast dst src value else Underflow (S dst))
       else (if is_floating_point src \<and> IsUnderflowFlagSet c then NaN (S dst)
             else Overflow (S dst)))
    \<and> saturated_cast dst p src is_constant_evaluated value =
      (let c' = DstRangeRelationToSrcRange dst (SaturationHandler p) src value in
       if \<not> IsOverflowFlagSet c'
       then (if \<not> IsUnderflowFlagSet c' then static_cast dst src value
             else Underflow (SaturationHandler p dst))
       else (if is_floating_point src \<and> IsUnderflowFlagSet c' then NaN (SaturationHandler p dst)
             else Overflow (SaturationHandler p dst)))"
proof -
  have impl: "\<And>S c. saturated_cast_impl dst S src value c =
      (if \<not> IsOverflowFlagSet c
       then (if \<not> IsUnderflowFlagSet c then static_cast dst src value else Underflow (S dst))
       else (if is_floating_point src \<and> IsUnderflowFlagSet c then NaN (S dst)
             else Overflow (S dst)))"
    by (simp add: saturated_cast_impl_def is_integral_def)
  have "saturated_cast dst p src is_constant_evaluated value =
      saturated_cast_impl dst (SaturationHandler p) src value
        (DstRangeRelationToSrcRange dst (SaturationHandler p) src value)"
  proof (cases "\<not> is_constant_evaluated \<and> SaturateFastOp_is_supported dst src \<and> is_default_handler p")
    case True
    then have p: "p = DefaultLimits" by (cases p) simp_all
    show ?thesis
      using True fast_equals_general[OF _ assms, of dst]
      by (simp add: saturated_cast_def value_of_static_cast_self p)
  next
    case False
    then show ?thesis
      by (auto simp: saturated_cast_def value_of_static_cast_self)
  qed
  then show ?thesis using impl by (simp add: Let_def)
qed


theorem saturated_cast_resolution_witness:
  "value_of Float (FltV FNaN)
   \<and> saturated_cast_impl Int32 SaturationDefaultLimits Float (FltV FNaN)
       \<lparr>is_underflow = True, is_overflow = True\<rparr> = IntV 0
   \<and> saturated_cast_impl Int32 SaturationDefaultLimits Int64 (IntV 5)
       \<lparr>is_underflow = True, is_overflow = True\<rparr> = IntV 2147483647
   \<and> saturated_cast Int8 DefaultLimits Int32 False (IntV (- 300)) = IntV (- 128)"
proof -
  have h1: "value_of Float (FltV FNaN)" and h2: "value_of Int64 (IntV 5)"
    and h3: "value_of Int32 (IntV (- 300))"
    by (simp_all add: int_value_of_def int_lowest_def int_max_def is_integral_def)
  have c: "DstRangeRelationToSrcRange Int8 SaturationDefaultLimits Int32 (IntV (- 300)) =
      \<lparr>is_underflow = True, is_overflow = False\<rparr>"
    by code_simp
  have d: "Underflow (SaturationDefaultLimits Int8) = IntV (- 128)"
    "NaN (SaturationDefaultLimits Int32) = IntV 0"
    "Overflow (SaturationDefaultLimits Int32) = IntV 2147483647"
    by (simp_all add: default_limits_int is_integral_def int_lowest_def int_max_def)
  show ?thesis
    using h1
      saturated_cast_resolution [OF h1, of Int32 SaturationDefaultLimits
        "\<lparr>is_underflow = True, is_overflow = True\<rparr>" DefaultLimits False]
      saturated_cast_resolution [OF h2, of Int32 SaturationDefaultLimits
        "\<lparr>is_underflow = True, is_overflow = True\<rparr>" DefaultLimits False]
      saturated_cast_resolution [OF h3, of Int8 SaturationDefaultLimits
        "\<lparr>is_underflow = True, is_overflow = False\<rparr>" DefaultLimits False]
    by (simp add: c d IsOverflowFlagSet_def IsUnderflowFlagSet_def)
qed

section \<open>The accelerated path\<close>

text \<open>
  Claim C2. For every pair of integer types, for which \<open>SaturateFastOp\<close> is supported, and
  every value of the source type, \<open>SaturateFastOp::Do\<close> returns what the general path
  returns with the default handler: \<open>saturated_cast_impl\<close> applied to the check of
  \<open>DstRangeRelationToSrcRange\<close>. So \<open>saturated_cast\<close> with the default handler returns the
  same value at run time, where it takes the accelerated path, and in constant evaluation,
  where it takes the general one.
\<close>

theorem accelerated_path_equivalence:
  assumes "SaturateFastOp_is_supported dst src" "value_of src value"
  shows "SaturateFastOp_Do dst src value =
      saturated_cast_impl dst SaturationDefaultLimits src value
        (DstRangeRelationToSrcRange dst SaturationDefaultLimits src value)
    \<and> saturated_cast dst DefaultLimits src False value =
      saturated_cast dst DefaultLimits src True value"
proof -
  note eq = fast_equals_general[OF assms]
  then show ?thesis
    using assms(1) by (simp add: saturated_cast_def value_of_static_cast_self)
qed

theorem accelerated_path_equivalence_witness:
  "SaturateFastOp_is_supported UInt8 Int32 \<and> value_of Int32 (IntV 300)
   \<and> SaturateFastOp_Do UInt8 Int32 (IntV 300) = IntV 255
   \<and> saturated_cast UInt8 DefaultLimits Int32 False (IntV 300) = IntV 255"
proof -
  have h1: "SaturateFastOp_is_supported UInt8 Int32" and h2: "value_of Int32 (IntV 300)"
    by (simp_all add: SaturateFastOp_is_supported_def int_value_of_def int_lowest_def
        int_max_def is_integral_def)
  have g: "saturated_cast UInt8 DefaultLimits Int32 True (IntV 300) = IntV 255"
    by code_simp
  have "saturated_cast_impl UInt8 SaturationDefaultLimits Int32 (IntV 300)
      (DstRangeRelationToSrcRange UInt8 SaturationDefaultLimits Int32 (IntV 300)) = IntV 255"
    by code_simp
  then show ?thesis
    using h1 h2 g accelerated_path_equivalence [OF h1 h2] by simp
qed

section \<open>Statically contained ranges\<close>

text \<open>
  Claim C6. For integer types where the static range relation of the destination to the
  source is \<open>kContained\<close>, and every value of the source type: the classifier returns a
  check with both flags clear; \<open>saturated_cast\<close> with the default handler returns the
  value converted to the destination, which is the value itself; and no function of the
  handler is called: with any handler that keeps the limits of \<open>numeric_limits\<close>, whatever
  its \<open>Overflow\<close>, \<open>Underflow\<close> and \<open>NaN\<close> return, the result is the same.
\<close>

theorem contained_integer_cast:
  assumes "is_integral dst" "is_integral src"
    and "kStaticDstRangeRelationToSrcRange dst src = kContained"
    and "value_of src value"
    and "lim_max (S dst) = lim_max (numeric_limits dst)"
    and "lim_lowest (S dst) = lim_lowest (numeric_limits dst)"
  shows "DstRangeRelationToSrcRange dst numeric_limits src value =
      \<lparr>is_underflow = False, is_overflow = False\<rparr>
    \<and> saturated_cast dst DefaultLimits src is_constant_evaluated value = static_cast dst src value
    \<and> saturated_cast dst (CustomLimits S) src is_constant_evaluated value =
      static_cast dst src value
    \<and> static_cast dst src value = value"
proof -
  obtain v where v: "value = IntV v" "int_value_of src v"
    using value_of_int[OF assms(2,4)] by blast
  have dv: "int_value_of dst v" using assms(3) v(2) assms(1) by (rule contained_int_range)
  then have r: "int_lowest dst \<le> v" "v \<le> int_max dst" by (simp_all add: int_value_of_def)
  have nl: "lim_max (numeric_limits dst) = IntV (int_max dst)"
    "lim_lowest (numeric_limits dst) = IntV (int_lowest dst)"
    using assms(1) by (simp_all add: numeric_limits_def is_integral_def)
  have c: "DstRangeRelationToSrcRange dst numeric_limits src (IntV v) =
      \<lparr>is_underflow = False, is_overflow = False\<rparr>"
    using classify_int[where B=numeric_limits, OF v(2) assms(1) nl] r
    by (simp add: RangeCheck_ctor_def)
  have id: "static_cast dst src (IntV v) = IntV v" using dv by (rule static_cast_int_id)
  have d: "saturated_cast_impl dst SaturationDefaultLimits src (IntV v)
      (DstRangeRelationToSrcRange dst SaturationDefaultLimits src (IntV v)) = IntV v"
    using general_path_int[where S=SaturationDefaultLimits, OF v(2) assms(1)
        default_limits_int(1,2)[OF assms(1)]] r
    by simp
  have f: "SaturateFastOp_Do dst src (IntV v) = IntV v"
    using fast_path_int[OF v(2) assms(1)] r by simp
  have s: "saturated_cast_impl dst S src (IntV v)
      (DstRangeRelationToSrcRange dst S src (IntV v)) = IntV v"
    using general_path_int[where S=S, OF v(2) assms(1)] assms(5,6) nl r by simp
  show ?thesis
    unfolding v(1) id using c d f s
    by (simp add: saturated_cast_def value_of_static_cast_self Let_def)
qed

theorem contained_integer_cast_witness:
  "is_integral Int32 \<and> is_integral UInt16
   \<and> kStaticDstRangeRelationToSrcRange Int32 UInt16 = kContained
   \<and> value_of UInt16 (IntV 65535)
   \<and> lim_max (SaturationDefaultLimits Int32) = lim_max (numeric_limits Int32)
   \<and> lim_lowest (SaturationDefaultLimits Int32) = lim_lowest (numeric_limits Int32)
   \<and> DstRangeRelationToSrcRange Int32 numeric_limits UInt16 (IntV 65535) =
       \<lparr>is_underflow = False, is_overflow = False\<rparr>
   \<and> saturated_cast Int32 DefaultLimits UInt16 False (IntV 65535) = IntV 65535
   \<and> saturated_cast Int32 (CustomLimits SaturationDefaultLimits) UInt16 True (IntV 65535) =
       IntV 65535"
proof -
  have h: "is_integral Int32" "is_integral UInt16"
    "kStaticDstRangeRelationToSrcRange Int32 UInt16 = kContained"
    "value_of UInt16 (IntV 65535)"
    "lim_max (SaturationDefaultLimits Int32) = lim_max (numeric_limits Int32)"
    "lim_lowest (SaturationDefaultLimits Int32) = lim_lowest (numeric_limits Int32)"
    by (simp_all add: is_integral_def kStaticDstRangeRelationToSrcRange_def representation_def
        kMaxExponent_def int_value_of_def int_lowest_def int_max_def SaturationDefaultLimits_def)
  show ?thesis
    using h contained_integer_cast [where S=SaturationDefaultLimits, OF h, of False]
      contained_integer_cast [where S=SaturationDefaultLimits, OF h, of True]
    by simp
qed

section \<open>The narrowing adjustment\<close>

text \<open>
  The constraint on \<open>Adjust\<close> holds for every integer destination, whatever the source; and
  with the standard limits of an integer destination the adjusted maximum is positive and at
  most the maximum, and the lowest value is not changed.
\<close>

lemma kShift_below_digits: "is_integral dst \<Longrightarrow> kShift dst src < digits dst"
  by (cases dst; cases src; simp add: kShift_def kMaxExponent_def is_integral_def)

lemma narrowing_standard_limits:
  assumes d: "is_integral dst"
    and B: "lim_max (B dst) = lim_max (numeric_limits dst)"
      "lim_lowest (B dst) = lim_lowest (numeric_limits dst)"
  shows "\<exists>m. NarrowingRange_max dst src B = IntV m
    \<and> m = int_max dst - int_max dst mod 2 ^ kShift dst src
    \<and> 0 < m \<and> m \<le> int_max dst"
    and "NarrowingRange_lowest dst src B = IntV (int_lowest dst)"
proof -
  define k where "k = kShift dst src"
  define n where "n = digits dst"
  define m where "m = int_max dst - int_max dst mod 2 ^ k"
  have nd: "\<not> is_floating_point dst" using d by (simp add: is_integral_def)
  have kn: "k < n" using kShift_below_digits[OF d] by (simp add: k_def n_def)
  have mx: "int_max dst = 2 ^ n - 1" by (simp add: int_max_def n_def)
  have mx0: "0 \<le> int_max dst" by (simp add: mx)
  have r: "0 \<le> int_max dst mod 2 ^ k" "int_max dst mod 2 ^ k < 2 ^ k"
    by simp_all
  have "(2::int) ^ (Suc k) \<le> 2 ^ n" using kn by (intro power_increasing) simp_all
  then have "(2::int) * 2 ^ k \<le> 2 ^ n" by simp
  then have m: "0 < m" "m \<le> int_max dst" using r mx unfolding m_def by linarith+
  have NRmax: "NarrowingRange_max dst src B = IntV m"
    using Adjust_int[OF int_limits_values(1)[OF d] kShift_below_digits[OF d]] mx0 nd
    by (simp add: NarrowingRange_max_def B numeric_limits_def m_def k_def)
  show "\<exists>m. NarrowingRange_max dst src B = IntV m
    \<and> m = int_max dst - int_max dst mod 2 ^ kShift dst src
    \<and> 0 < m \<and> m \<le> int_max dst"
    using NRmax m by (intro exI[of _ m]) (simp add: m_def k_def)
  have lo: "int_lowest dst = (if is_signed dst then - (2 ^ n) else 0)"
    by (simp add: int_lowest_def n_def)
  have pmod: "(2::int) ^ n mod 2 ^ k = 0"
    using kn by (simp add: dvd_eq_mod_eq_0[symmetric] le_imp_power_dvd)
  show "NarrowingRange_lowest dst src B = IntV (int_lowest dst)"
    using Adjust_int[OF int_limits_values(2)[OF d] kShift_below_digits[OF d]] nd pmod
    by (simp add: NarrowingRange_lowest_def B numeric_limits_def lo flip: k_def)
qed

text \<open>
  Claim C5, as stated, fails for bounds that are not the standard limits. \<open>Adjust\<close> clears
  the low \<open>kShift\<close> bits of the magnitude of a bound, whichever bound it is, so a positive
  lowest value and a negative maximum are widened. For a 32-bit signed destination and a
  \<open>float\<close> source (\<open>kShift\<close> is 7) the lowest value 200 is adjusted to 128, which is below
  it, and the maximum -200 to -128, which is above it. With bounds whose lowest value is 200
  and whose maximum is 1000 (they meet the constraint \<open>lowest() < max()\<close>), the
  \<open>float\<close> 150, which is below the lowest value, is classified as in range, and the
  saturating cast returns 150 and not \<open>Underflow()\<close>. The sign is not kept either where the
  magnitude is below \<open>2 ^ kShift\<close>: -1, which \<open>IsValueNegative\<close> reports negative, is
  adjusted to 0, which it does not.
\<close>

theorem Adjust_widens_counterexample:
  "int_value_of Int32 200 \<and> kShift Int32 Float < digits Int32
   \<and> Adjust Int32 Float (IntV 200) = IntV 128 \<and> (128::int) < 200
   \<and> int_value_of Int32 (- 200)
   \<and> Adjust Int32 Float (IntV (- 200)) = IntV (- 128) \<and> (- 200::int) < - 128
   \<and> Bounds_ok (SaturationDefaultLimits(Int32 :=
        \<lparr>lim_max = IntV 1000, lim_lowest = IntV 200,
         Overflow = IntV 1000, Underflow = IntV 200, NaN = IntV 0\<rparr>)) Int32
   \<and> NarrowingRange_lowest Int32 Float (SaturationDefaultLimits(Int32 :=
        \<lparr>lim_max = IntV 1000, lim_lowest = IntV 200,
         Overflow = IntV 1000, Underflow = IntV 200, NaN = IntV 0\<rparr>)) = IntV 128
   \<and> value_of Float (FltV (Fin 150))
   \<and> c_less Float (FltV (Fin 150)) Int32 (IntV 200)
   \<and> DstRangeRelationToSrcRange Int32 (SaturationDefaultLimits(Int32 :=
        \<lparr>lim_max = IntV 1000, lim_lowest = IntV 200,
         Overflow = IntV 1000, Underflow = IntV 200, NaN = IntV 0\<rparr>))
        Float (FltV (Fin 150)) = \<lparr>is_underflow = False, is_overflow = False\<rparr>
   \<and> saturated_cast Int32 (CustomLimits (SaturationDefaultLimits(Int32 :=
        \<lparr>lim_max = IntV 1000, lim_lowest = IntV 200,
         Overflow = IntV 1000, Underflow = IntV 200, NaN = IntV 0\<rparr>)))
        Float False (FltV (Fin 150)) = IntV 150
   \<and> int_value_of Int32 (- 1)
   \<and> Adjust Int32 Float (IntV (- 1)) = IntV 0
   \<and> IsValueNegative Int32 (IntV (- 1)) \<and> \<not> IsValueNegative Int32 (IntV 0)"
  by code_simp

text \<open>
  Claim C5, amended. \<open>NarrowingRange::Adjust\<close> only clears low bits of the magnitude of a
  bound. For every value \<open>v\<close> of an integer destination (with \<open>kShift\<close> below its digits,
  the constraint on \<open>Adjust\<close>) the adjusted value is the magnitude of \<open>v\<close> with its low
  \<open>kShift\<close> bits cleared, negated when \<open>v\<close> is negative: it has the sign of \<open>v\<close> or is 0,
  which it is exactly when the magnitude of \<open>v\<close> is below \<open>2 ^ kShift\<close>, and its magnitude
  is at most that of \<open>v\<close>. So a maximum that is not negative is adjusted to a value that is
  not negative and at most the maximum, and a lowest value that is not positive to a value
  that is not positive and at least the lowest value. In particular, with the standard limits
  of every integer destination and for every source, the constraint on \<open>Adjust\<close> holds, the
  adjusted maximum is positive and at most the maximum, and the adjusted lowest value is the
  lowest value. With \<open>kShift\<close> 0, and for a floating-point destination, the bound is
  returned unchanged.
\<close>

theorem Adjust_narrows:
  "(is_floating_point dst \<longrightarrow> Adjust dst src value = value)
   \<and> (int_value_of dst v \<and> kShift dst src < digits dst \<longrightarrow>
        (\<exists>a. Adjust dst src (IntV v) = IntV a
           \<and> a = (if v < 0 then - (\<bar>v\<bar> - \<bar>v\<bar> mod 2 ^ kShift dst src)
                  else \<bar>v\<bar> - \<bar>v\<bar> mod 2 ^ kShift dst src)
           \<and> \<bar>a\<bar> = \<bar>v\<bar> - \<bar>v\<bar> mod 2 ^ kShift dst src
           \<and> \<bar>a\<bar> \<le> \<bar>v\<bar>
           \<and> (sgn a = sgn v \<or> a = 0)
           \<and> (a = 0) = (\<bar>v\<bar> < 2 ^ kShift dst src)
           \<and> (0 \<le> v \<longrightarrow> 0 \<le> a \<and> a \<le> v)
           \<and> (v \<le> 0 \<longrightarrow> v \<le> a \<and> a \<le> 0)
           \<and> (kShift dst src = 0 \<longrightarrow> a = v)))
   \<and> (is_integral dst \<and> lim_max (B dst) = lim_max (numeric_limits dst)
        \<and> lim_lowest (B dst) = lim_lowest (numeric_limits dst) \<longrightarrow>
        kShift dst src < digits dst
        \<and> (\<exists>m. NarrowingRange_max dst src B = IntV m \<and> 0 < m \<and> m \<le> int_max dst)
        \<and> NarrowingRange_lowest dst src B = IntV (int_lowest dst))"
proof (intro conjI impI)
  assume "is_floating_point dst"
  then show "Adjust dst src value = value" by (simp add: Adjust_def is_integral_def)
next
  assume h: "int_value_of dst v \<and> kShift dst src < digits dst"
  define k where "k = kShift dst src"
  define m where "m = \<bar>v\<bar> mod 2 ^ k"
  define a where "a = (if v < 0 then - (\<bar>v\<bar> - m) else v - m)"
  have A: "Adjust dst src (IntV v) = IntV a"
    using Adjust_int[of dst v src] h by (auto simp: a_def m_def k_def)
  have m: "0 \<le> m" "m \<le> \<bar>v\<bar>" "m < 2 ^ k"
    by (simp_all add: m_def zmod_le_nonneg_dividend)
  have m0: "(m = \<bar>v\<bar>) = (\<bar>v\<bar> < 2 ^ k)"
  proof
    assume "m = \<bar>v\<bar>"
    then show "\<bar>v\<bar> < 2 ^ k" using m(3) by simp
  next
    assume "\<bar>v\<bar> < 2 ^ k"
    then show "m = \<bar>v\<bar>" by (simp add: m_def)
  qed
  have k0: "k = 0 \<Longrightarrow> m = 0" by (simp add: m_def)
  have "a = (if v < 0 then - (\<bar>v\<bar> - m) else \<bar>v\<bar> - m)" by (auto simp: a_def)
  moreover have "\<bar>a\<bar> = \<bar>v\<bar> - m" using m by (auto simp: a_def)
  moreover have "\<bar>a\<bar> \<le> \<bar>v\<bar>" using m by (auto simp: a_def)
  moreover have "sgn a = sgn v \<or> a = 0" using m by (auto simp: a_def sgn_if)
  moreover have "(a = 0) = (\<bar>v\<bar> < 2 ^ k)" using m m0 by (auto simp: a_def)
  moreover have "0 \<le> v \<longrightarrow> 0 \<le> a \<and> a \<le> v" using m by (auto simp: a_def)
  moreover have "v \<le> 0 \<longrightarrow> v \<le> a \<and> a \<le> 0" using m by (auto simp: a_def)
  moreover have "k = 0 \<longrightarrow> a = v" using k0 by (auto simp: a_def)
  ultimately show "\<exists>a. Adjust dst src (IntV v) = IntV a
           \<and> a = (if v < 0 then - (\<bar>v\<bar> - \<bar>v\<bar> mod 2 ^ kShift dst src)
                  else \<bar>v\<bar> - \<bar>v\<bar> mod 2 ^ kShift dst src)
           \<and> \<bar>a\<bar> = \<bar>v\<bar> - \<bar>v\<bar> mod 2 ^ kShift dst src
           \<and> \<bar>a\<bar> \<le> \<bar>v\<bar>
           \<and> (sgn a = sgn v \<or> a = 0)
           \<and> (a = 0) = (\<bar>v\<bar> < 2 ^ kShift dst src)
           \<and> (0 \<le> v \<longrightarrow> 0 \<le> a \<and> a \<le> v)
           \<and> (v \<le> 0 \<longrightarrow> v \<le> a \<and> a \<le> 0)
           \<and> (kShift dst src = 0 \<longrightarrow> a = v)"
    using A unfolding m_def k_def by (intro exI[of _ a]) blast
next
  assume h: "is_integral dst \<and> lim_max (B dst) = lim_max (numeric_limits dst)
        \<and> lim_lowest (B dst) = lim_lowest (numeric_limits dst)"
  then show "kShift dst src < digits dst" by (simp add: kShift_below_digits)
next
  assume h: "is_integral dst \<and> lim_max (B dst) = lim_max (numeric_limits dst)
        \<and> lim_lowest (B dst) = lim_lowest (numeric_limits dst)"
  then show "\<exists>m. NarrowingRange_max dst src B = IntV m \<and> 0 < m \<and> m \<le> int_max dst"
    using narrowing_standard_limits(1)[of dst B src] by blast
next
  assume h: "is_integral dst \<and> lim_max (B dst) = lim_max (numeric_limits dst)
        \<and> lim_lowest (B dst) = lim_lowest (numeric_limits dst)"
  then show "NarrowingRange_lowest dst src B = IntV (int_lowest dst)"
    using narrowing_standard_limits(2)[of dst B src] by blast
qed

theorem Adjust_narrows_witness:
  "is_floating_point Float
   \<and> Adjust Float Int64 (FltV (Fin 1)) = FltV (Fin 1)
   \<and> int_value_of Int32 2147483647 \<and> kShift Int32 Float < digits Int32
   \<and> Adjust Int32 Float (IntV 2147483647) = IntV 2147483520
   \<and> int_value_of Int32 (- 2147483648)
   \<and> Adjust Int32 Float (IntV (- 2147483648)) = IntV (- 2147483648)
   \<and> int_value_of UInt8 255 \<and> kShift UInt8 Float = 0
   \<and> Adjust UInt8 Float (IntV 255) = IntV 255
   \<and> is_integral Int32
   \<and> lim_max (SaturationDefaultLimits Int32) = lim_max (numeric_limits Int32)
   \<and> lim_lowest (SaturationDefaultLimits Int32) = lim_lowest (numeric_limits Int32)
   \<and> NarrowingRange_max Int32 Float SaturationDefaultLimits = IntV 2147483520
   \<and> NarrowingRange_lowest Int32 Float SaturationDefaultLimits = IntV (- 2147483648)"
proof -
  have f: "is_floating_point Float" by simp
  have v: "int_value_of Int32 2147483647" "int_value_of Int32 (- 2147483648)"
    "int_value_of UInt8 255"
    by (simp_all add: int_value_of_def int_lowest_def int_max_def is_integral_def)
  have k: "kShift Int32 Float = 7" "kShift UInt8 Float = 0"
    by (simp_all add: kShift_def kMaxExponent_def)
  have k': "kShift Int32 Float < digits Int32" "kShift UInt8 Float < digits UInt8"
    by (simp_all add: k)
  have 1: "Adjust Float Int64 (FltV (Fin 1)) = FltV (Fin 1)"
    using Adjust_narrows [of Float Int64 "FltV (Fin 1)" 0 numeric_limits] by simp
  have 2: "Adjust Int32 Float (IntV 2147483647) = IntV 2147483520"
    using Adjust_narrows [of Int32 Float "IntV 0" 2147483647 numeric_limits] v(1) k'(1)
    by (auto simp: k)
  have 3: "Adjust Int32 Float (IntV (- 2147483648)) = IntV (- 2147483648)"
    using Adjust_narrows [of Int32 Float "IntV 0" "- 2147483648" numeric_limits] v(2) k'(1)
    by (auto simp: k)
  have c: "Adjust UInt8 Float (IntV 255) = IntV 255"
    using Adjust_narrows [of UInt8 Float "IntV 0" 255 numeric_limits] v(3) k'(2) k(2)
    by auto
  have s: "is_integral Int32"
    "lim_max (SaturationDefaultLimits Int32) = lim_max (numeric_limits Int32)"
    "lim_lowest (SaturationDefaultLimits Int32) = lim_lowest (numeric_limits Int32)"
    by (simp_all add: is_integral_def SaturationDefaultLimits_def)
  have 4: "NarrowingRange_lowest Int32 Float SaturationDefaultLimits = IntV (- 2147483648)"
    using Adjust_narrows [of Int32 Float "IntV 0" 0 SaturationDefaultLimits] s
    by (simp add: int_lowest_def)
  have 5: "NarrowingRange_max Int32 Float SaturationDefaultLimits = IntV 2147483520"
    using 2 by (simp add: NarrowingRange_max_def SaturationDefaultLimits_def
        numeric_limits_def int_max_def)
  show ?thesis using f v k k'(1) 1 2 3 c s 4 5 by simp
qed

section \<open>Classification with floating-point types\<close>

lemma fp_max_larger: "is_floating_point t \<Longrightarrow> 2 ^ 66 \<le> fp_max t"
  by (cases t) (simp_all add: fp_max_def)

lemma val_le_Fin [simp]: "val_le (FltV (Fin p)) (FltV (Fin q)) = (p \<le> q)"
  by (auto simp: val_le_def)

lemma val_NaN [simp]:
  "val_le x (FltV FNaN) = False" "val_le (FltV FNaN) x = False"
  "val_less x (FltV FNaN) = False" "val_less (FltV FNaN) x = False"
  by (cases x; cases "to_fval x"; simp add: val_le_def)+

lemma float_types:
  assumes "is_floating_point src"
  shows "arith_conv src src = src" "is_signed src" "representation src = kSigned"
    "is_integral dst \<Longrightarrow> arith_conv src dst = src"
    "is_integral dst \<Longrightarrow> arith_conv dst src = src"
    "is_integral dst \<Longrightarrow> dst \<noteq> src"
    "is_integral dst \<Longrightarrow> kStaticDstRangeRelationToSrcRange dst src = kNotContained"
    "is_integral dst \<Longrightarrow> kStaticDstRangeRelationToSrcRange src dst = kContained"
    "is_integral dst \<Longrightarrow> kShift dst src = digits dst - digits src"
    "is_integral dst \<Longrightarrow> kShift dst src < digits dst"
    "is_integral dst \<Longrightarrow> kShift src dst = 0"
    "is_integral dst \<Longrightarrow> digits dst \<le> 64"
    "0 < digits src"
  using assms
  by (cases src; cases dst;
      simp add: arith_conv_def promote_def is_integral_def representation_def
        kStaticDstRangeRelationToSrcRange_def kMaxExponent_def kShift_def)+

lemma int_limits_small:
  assumes "is_integral t"
  shows "\<bar>int_max t\<bar> < 2 ^ 65" "\<bar>int_lowest t\<bar> < 2 ^ 65"
  using assms by (cases t; simp add: int_max_def int_lowest_def is_integral_def)+

lemma int_in_float_range:
  assumes t: "is_floating_point t" and n: "\<bar>n\<bar> < 2 ^ 65"
  shows "val_le (FltV (Fin (- fp_max t))) (FltV (fp_round t (of_int n)))"
    and "val_le (FltV (fp_round t (of_int n))) (FltV (Fin (fp_max t)))"
    and "\<not> val_le (FltV (Fin (fp_max t))) (FltV (fp_round t (of_int n)))"
proof -
  obtain x where x: "fp_round t (of_int n) = Fin (of_int x)" "\<bar>x\<bar> \<le> 2 ^ 65"
    using fp_round_finite[OF t n] by blast
  have "\<bar>of_int x :: rat\<bar> \<le> of_int (2 ^ 65)"
    using x(2) by (simp only: of_int_abs[symmetric] of_int_le_iff)
  moreover have "(2::rat) ^ 65 < 2 ^ 66" by simp
  ultimately have "\<bar>of_int x :: rat\<bar> < fp_max t" using fp_max_larger[OF t] by simp
  then show "val_le (FltV (Fin (- fp_max t))) (FltV (fp_round t (of_int n)))"
    and "val_le (FltV (fp_round t (of_int n))) (FltV (Fin (fp_max t)))"
    and "\<not> val_le (FltV (Fin (fp_max t))) (FltV (fp_round t (of_int n)))"
    by (simp_all add: x(1) abs_less_iff)
qed

text \<open>An integer source is always in the range of a floating-point destination.\<close>

lemma classify_int_to_float:
  assumes s: "is_integral src" and d: "is_floating_point dst"
    and B: "lim_max (B dst) = lim_max (numeric_limits dst)"
      "lim_lowest (B dst) = lim_lowest (numeric_limits dst)"
  shows "DstRangeRelationToSrcRange dst B src value =
    \<lparr>is_underflow = False, is_overflow = False\<rparr>"
proof -
  have nd: "\<not> is_integral dst" using d by (simp add: is_integral_def)
  have ns: "\<not> is_floating_point src" using s by (simp add: is_integral_def)
  have NR: "NarrowingRange_max dst src B = FltV (Fin (fp_max dst))"
    "NarrowingRange_lowest dst src B = FltV (Fin (- fp_max dst))"
    using d nd by (simp_all add: NarrowingRange_max_def NarrowingRange_lowest_def Adjust_def B
        numeric_limits_def)
  have lims: "static_cast dst src (lim_lowest (numeric_limits src)) =
      FltV (fp_round dst (of_int (int_lowest src)))"
    "static_cast dst src (lim_max (numeric_limits src)) =
      FltV (fp_round dst (of_int (int_max src)))"
    using d ns float_types(6)[OF d s] by (simp_all add: static_cast_def numeric_limits_def)
  note r1 = int_in_float_range[OF d int_limits_small(2)[OF s]]
  note r2 = int_in_float_range[OF d int_limits_small(1)[OF s]]
  have lo: "c_ge dst (static_cast dst src (lim_lowest (numeric_limits src)))
      dst (NarrowingRange_lowest dst src B)"
    using r1(1) by (simp add: c_ge_def c_le_def float_types(1)[OF d] value_of_static_cast_self NR lims)
  have hi: "c_le dst (static_cast dst src (lim_max (numeric_limits src)))
      dst (NarrowingRange_max dst src B)"
    using r2(2) by (simp add: c_le_def float_types(1)[OF d] value_of_static_cast_self NR lims)
  have k: "kStaticDstRangeRelationToSrcRange dst src = kContained"
    using d s by (rule float_types(8))
  show ?thesis
    unfolding DstRangeRelationToSrcRange_def k float_types(3)[OF d]
    using lo hi by (cases "representation src") (simp_all add: RangeCheck_ctor_def)
qed


text \<open>
  Claim C9. For every integer source type, every arithmetic destination type, and every
  value of the source type, the classifier with the standard limits never returns a check
  with both the underflow and the overflow flag set.
\<close>

theorem integral_source_never_invalid:
  assumes "is_integral src" "value_of src value"
    and "lim_max (B dst) = lim_max (numeric_limits dst)"
    and "lim_lowest (B dst) = lim_lowest (numeric_limits dst)"
  shows "\<not> IsInvalid (DstRangeRelationToSrcRange dst B src value)
    \<and> \<not> (IsUnderflowFlagSet (DstRangeRelationToSrcRange dst B src value)
          \<and> IsOverflowFlagSet (DstRangeRelationToSrcRange dst B src value))"
proof (cases "is_floating_point dst")
  case True
  show ?thesis
    unfolding classify_int_to_float[where B=B, OF assms(1) True assms(3,4)]
    by (simp add: IsInvalid_def IsUnderflowFlagSet_def IsOverflowFlagSet_def)
next
  case False
  then have d: "is_integral dst" by (simp add: is_integral_def)
  obtain v where v: "value = IntV v" "int_value_of src v"
    using value_of_int[OF assms(1,2)] by blast
  have nl: "lim_max (B dst) = IntV (int_max dst)" "lim_lowest (B dst) = IntV (int_lowest dst)"
    using assms(3,4) False by (simp_all add: numeric_limits_def)
  have le: "int_lowest dst \<le> int_max dst"
    by (cases dst) (simp_all add: int_lowest_def int_max_def)
  show ?thesis
    unfolding v(1) classify_int[where B=B, OF v(2) d nl]
    using le
    by (auto simp: IsInvalid_def IsUnderflowFlagSet_def IsOverflowFlagSet_def RangeCheck_ctor_def)
qed

theorem integral_source_never_invalid_witness:
  "is_integral Int32 \<and> value_of Int32 (IntV (- 5))
   \<and> lim_max (numeric_limits UInt8) = lim_max (numeric_limits UInt8)
   \<and> lim_lowest (numeric_limits UInt8) = lim_lowest (numeric_limits UInt8)
   \<and> \<not> IsInvalid (DstRangeRelationToSrcRange UInt8 numeric_limits Int32 (IntV (- 5)))
   \<and> is_integral UInt64 \<and> value_of UInt64 (IntV 18446744073709551615)
   \<and> \<not> IsInvalid (DstRangeRelationToSrcRange Float numeric_limits UInt64
         (IntV 18446744073709551615))"
proof -
  have h: "is_integral Int32" "value_of Int32 (IntV (- 5))"
    and g: "is_integral UInt64" "value_of UInt64 (IntV 18446744073709551615)"
    by (simp_all add: is_integral_def int_value_of_def int_lowest_def int_max_def)
  show ?thesis
    using h g
      integral_source_never_invalid [where B=numeric_limits and dst=UInt8, OF h refl refl]
      integral_source_never_invalid [where B=numeric_limits and dst=Float, OF g refl refl]
    by simp
qed

text \<open>
  For a floating-point source and an integer destination with the standard limits, the
  adjusted bounds are converted to the source type exactly.
\<close>

lemma narrowing_bounds_float_source:
  assumes s: "is_floating_point src" and d: "is_integral dst"
    and B: "lim_max (B dst) = lim_max (numeric_limits dst)"
      "lim_lowest (B dst) = lim_lowest (numeric_limits dst)"
  shows "\<exists>A. NarrowingRange_max dst src B = IntV A
    \<and> NarrowingRange_lowest dst src B = IntV (int_lowest dst)
    \<and> A = int_max dst - int_max dst mod 2 ^ kShift dst src
    \<and> 0 \<le> A \<and> A \<le> int_max dst
    \<and> static_cast src dst (IntV A) = FltV (Fin (of_int A))
    \<and> static_cast src dst (IntV (int_lowest dst)) = FltV (Fin (of_int (int_lowest dst)))"
proof -
  define k where "k = kShift dst src"
  define n where "n = digits dst"
  define A where "A = int_max dst - int_max dst mod 2 ^ k"
  have nd: "\<not> is_floating_point dst" using d by (simp add: is_integral_def)
  have kn: "k < n" using float_types(10)[OF s d] by (simp add: k_def n_def)
  have kd: "n \<le> digits src + k" using float_types(9)[OF s d] by (simp add: k_def n_def)
  have n64: "n \<le> 64" using float_types(12)[OF s d] by (simp add: n_def)
  have mx: "int_max dst = 2 ^ n - 1" by (simp add: int_max_def n_def)
  have mx0: "0 \<le> int_max dst" by (simp add: mx)
  have p65: "(2::int) ^ n < 2 ^ 65" using n64 by (intro power_strict_increasing) simp_all
  have m: "0 \<le> int_max dst mod 2 ^ k" "int_max dst mod 2 ^ k \<le> int_max dst"
    using mx0 by (simp_all add: zmod_le_nonneg_dividend)
  have mxlt: "int_max dst < 2 ^ n" by (simp add: mx)
  have A: "0 \<le> A" "A \<le> int_max dst" "A < 2 ^ n"
    using m mxlt unfolding A_def by linarith+
  have Amod: "A mod 2 ^ k = 0" by (simp add: A_def minus_mod_eq_div_mult)
  have "(2::int) ^ n \<le> 2 ^ (digits src + k)" using kd by (intro power_increasing) simp_all
  then have Alt: "A < 2 ^ (digits src + k)" using A(3) by linarith
  have A65: "A < 2 ^ 65" using A(3) p65 by linarith
  have cast: "\<And>x. static_cast src dst (IntV x) = FltV (fp_round src (of_int x))"
    using s float_types(6)[OF s d] by (simp add: static_cast_def)
  have exA: "static_cast src dst (IntV A) = FltV (Fin (of_int A))"
    unfolding cast using fp_round_exact(1)[OF s A(1) A65 Amod Alt] by simp
  have NRmax: "NarrowingRange_max dst src B = IntV A"
    using Adjust_int[OF int_limits_values(1)[OF d] float_types(10)[OF s d]] mx0 nd
    by (simp add: NarrowingRange_max_def B numeric_limits_def A_def k_def)
  have lo: "int_lowest dst = (if is_signed dst then - (2 ^ n) else 0)"
    by (simp add: int_lowest_def n_def)
  have pmod: "(2::int) ^ n mod 2 ^ k = 0"
    using kn by (simp add: dvd_eq_mod_eq_0[symmetric] le_imp_power_dvd)
  have NRlow: "NarrowingRange_lowest dst src B = IntV (int_lowest dst)"
    using Adjust_int[OF int_limits_values(2)[OF d] float_types(10)[OF s d]] nd pmod
    by (simp add: NarrowingRange_lowest_def B numeric_limits_def lo flip: k_def)
  have exL: "static_cast src dst (IntV (int_lowest dst)) = FltV (Fin (of_int (int_lowest dst)))"
  proof (cases "is_signed dst")
    case True
    have "(2::int) ^ n < 2 ^ (digits src + n)"
      using float_types(13)[OF s] by (intro power_strict_increasing) simp_all
    then have "fp_round src (of_int (- (2 ^ n))) = Fin (of_int (- (2 ^ n)))"
      using p65 by (intro fp_round_exact(2)[OF s, where s=n]) simp_all
    then show ?thesis unfolding cast using True by (simp add: lo)
  next
    case False
    then show ?thesis unfolding cast by (simp add: lo fp_round_def)
  qed
  show ?thesis
    using NRmax NRlow A(1,2) exA exL by (intro exI[of _ A]) (simp add: A_def k_def)
qed


lemma minus_one_float:
  assumes "is_floating_point src"
  shows "static_cast src Int32 (IntV (- 1)) = FltV (Fin (- 1))"
proof -
  have "(1::int) < 2 ^ digits src" using assms by (cases src) simp_all
  then have "fp_round src (of_int (- 1)) = Fin (of_int (- 1))"
    using assms by (intro fp_round_exact(2)[where s=0]) simp_all
  moreover have "src \<noteq> Int32" using assms by auto
  ultimately show ?thesis using assms by (simp add: static_cast_def)
qed

lemma zero_is_zero:
  assumes "is_integral dst"
  shows "c_eq dst (IntV 0) Int32 (IntV 0)"
  using assms
  by (cases dst)
    (simp_all add: c_eq_def arith_conv_def promote_def is_integral_def static_cast_def
      int_cast_def wrap_signed_def wrap_unsigned_def)

text \<open>The check of a floating-point source for an integer destination.\<close>

lemma classify_float_source:
  assumes s: "is_floating_point src" and d: "is_integral dst"
    and B: "lim_max (B dst) = lim_max (numeric_limits dst)"
      "lim_lowest (B dst) = lim_lowest (numeric_limits dst)"
  shows "DstRangeRelationToSrcRange dst B src (FltV f) =
    RangeCheck_ctor
      (if is_signed dst then val_le (FltV (Fin (of_int (int_lowest dst)))) (FltV f)
       else fval_less (Fin (- 1)) f)
      (val_le (FltV f) (static_cast src dst (NarrowingRange_max dst src B)))"
proof -
  obtain A where A: "NarrowingRange_max dst src B = IntV A"
    "NarrowingRange_lowest dst src B = IntV (int_lowest dst)"
    "0 \<le> A" "A \<le> int_max dst"
    "static_cast src dst (IntV A) = FltV (Fin (of_int A))"
    "static_cast src dst (IntV (int_lowest dst)) = FltV (Fin (of_int (int_lowest dst)))"
    using narrowing_bounds_float_source[where B=B, OF s d B] by blast
  note ft = float_types[OF s]
  have k: "kStaticDstRangeRelationToSrcRange dst src = kNotContained" using d by (rule ft(7))
  show ?thesis
  proof (cases "is_signed dst")
    case True
    then have r: "representation dst = kSigned" by (simp add: representation_def)
    show ?thesis
      unfolding DstRangeRelationToSrcRange_def k r ft(3)
      using True
      by (simp add: c_ge_def c_le_def ft(4)[OF d] ft(5)[OF d] value_of_static_cast_self A)
  next
    case False
    then have r: "representation dst = kUnsigned" by (simp add: representation_def)
    have lo0: "int_lowest dst = 0" using False by (simp add: int_lowest_def)
    have "\<bar>A\<bar> < 2 ^ 65" using A(3,4) int_limits_small(1)[OF d] by linarith
    from int_in_float_range(3)[OF s this]
    have nomax: "\<not> val_le (FltV (Fin (fp_max src))) (FltV (Fin (of_int A)))"
      using A(5) s ft(6)[OF d] by (simp add: static_cast_def)
    have smax: "lim_max (numeric_limits src) = FltV (Fin (fp_max src))"
      using s by (simp add: numeric_limits_def)
    show ?thesis
      unfolding DstRangeRelationToSrcRange_def k r ft(3)
      using False s nomax zero_is_zero[OF d]
      by (simp add: c_ge_def c_le_def c_greater_def c_less_def ft(1) ft(4)[OF d] ft(5)[OF d]
          value_of_static_cast_self A lo0 smax minus_one_float[OF s] Let_def)
  qed
qed

lemma saturated_cast_general:
  assumes "value_of src value"
  shows "saturated_cast dst p src is_constant_evaluated value =
    saturated_cast_impl dst (SaturationHandler p) src value
      (DstRangeRelationToSrcRange dst (SaturationHandler p) src value)"
proof (cases "\<not> is_constant_evaluated \<and> SaturateFastOp_is_supported dst src \<and> is_default_handler p")
  case True
  then have p: "p = DefaultLimits" by (cases p) simp_all
  show ?thesis
    using True fast_equals_general[OF _ assms, of dst]
    by (simp add: saturated_cast_def value_of_static_cast_self p)
next
  case False
  then show ?thesis
    by (auto simp: saturated_cast_def value_of_static_cast_self)
qed

section \<open>Not-a-number\<close>

lemma fval_less_NaN [simp]: "fval_less x FNaN = False"
  by (cases x) simp_all

lemma classify_NaN:
  assumes s: "is_floating_point src" and d: "is_integral dst"
    and m: "value_of dst (lim_max (B dst))"
  shows "DstRangeRelationToSrcRange dst B src (FltV FNaN) =
    \<lparr>is_underflow = True, is_overflow = True\<rparr>"
proof -
  note ft = float_types[OF s]
  have k: "kStaticDstRangeRelationToSrcRange dst src = kNotContained" using d by (rule ft(7))
  show ?thesis
  proof (cases "is_signed dst")
    case True
    then have r: "representation dst = kSigned" by (simp add: representation_def)
    show ?thesis
      unfolding DstRangeRelationToSrcRange_def k r ft(3)
      by (simp add: c_ge_def c_le_def ft(4)[OF d] ft(5)[OF d] value_of_static_cast_self
          RangeCheck_ctor_def)
  next
    case False
    then have r: "representation dst = kUnsigned" by (simp add: representation_def)
    obtain mx where mx: "lim_max (B dst) = IntV mx" "int_value_of dst mx"
      using m d by (cases "lim_max (B dst)"; cases "to_fval (lim_max (B dst))")
        (auto simp: is_integral_def)
    define a where "a = (if mx < 0 then - (\<bar>mx\<bar> - \<bar>mx\<bar> mod 2 ^ kShift dst src)
      else mx - mx mod 2 ^ kShift dst src)"
    have NR: "NarrowingRange_max dst src B = IntV a"
      using Adjust_int[OF mx(2) ft(10)[OF d]] by (simp add: NarrowingRange_max_def mx(1) a_def)
    have "0 \<le> \<bar>mx\<bar> mod 2 ^ kShift dst src" "\<bar>mx\<bar> mod 2 ^ kShift dst src \<le> \<bar>mx\<bar>"
      by (simp_all add: zmod_le_nonneg_dividend)
    then have "\<bar>a\<bar> \<le> \<bar>mx\<bar>" by (auto simp: a_def)
    moreover have "\<bar>mx\<bar> < 2 ^ 65"
      using mx(2) int_limits_small[OF d] by (auto simp: int_value_of_def)
    ultimately have "\<bar>a\<bar> < 2 ^ 65" by linarith
    from int_in_float_range(3)[OF s this]
    have nomax: "\<not> val_le (FltV (Fin (fp_max src))) (static_cast src dst (IntV a))"
      using s ft(6)[OF d] by (simp add: static_cast_def)
    have smax: "lim_max (numeric_limits src) = FltV (Fin (fp_max src))"
      using s by (simp add: numeric_limits_def)
    show ?thesis
      unfolding DstRangeRelationToSrcRange_def k r ft(3)
      using s nomax
      by (simp add: c_ge_def c_le_def c_greater_def c_less_def ft(1) ft(4)[OF d] ft(5)[OF d]
          value_of_static_cast_self NR smax Let_def RangeCheck_ctor_def)
  qed
qed

text \<open>
  Claim C8. For every floating-point source type and every integer destination type, with
  a handler whose \<open>max()\<close> is a value of the destination type: both comparisons of the
  classifier fail for not-a-number, the check has the underflow and the overflow flag
  set, and \<open>saturated_cast\<close> returns the handler's \<open>NaN\<close>; with the default handler that
  is 0.
\<close>

theorem NaN_source:
  assumes "is_floating_point src" "is_integral dst"
    and "value_of dst (lim_max (SaturationHandler p dst))"
  shows "DstRangeRelationToSrcRange dst (SaturationHandler p) src (FltV FNaN) =
      \<lparr>is_underflow = True, is_overflow = True\<rparr>
    \<and> saturated_cast dst p src is_constant_evaluated (FltV FNaN) = NaN (SaturationHandler p dst)
    \<and> saturated_cast dst DefaultLimits src is_constant_evaluated (FltV FNaN) = IntV 0"
proof -
  have v: "value_of src (FltV FNaN)" using assms(1) by simp
  have ni: "\<not> is_integral src" using assms(1) by (simp add: is_integral_def)
  have c: "DstRangeRelationToSrcRange dst (SaturationHandler p) src (FltV FNaN) =
      \<lparr>is_underflow = True, is_overflow = True\<rparr>"
    using assms by (rule classify_NaN)
  have dl: "value_of dst (lim_max (SaturationDefaultLimits dst))"
    using assms(2) int_limits_values(1)[OF assms(2)] by (simp add: default_limits_int)
  have cd: "DstRangeRelationToSrcRange dst SaturationDefaultLimits src (FltV FNaN) =
      \<lparr>is_underflow = True, is_overflow = True\<rparr>"
    using assms(1,2) dl by (rule classify_NaN)
  show ?thesis
    unfolding saturated_cast_general[OF v]
    using c cd ni assms(2)
    by (simp add: saturated_cast_impl_def IsOverflowFlagSet_def IsUnderflowFlagSet_def
        default_limits_int)
qed

theorem NaN_source_witness:
  "is_floating_point Float \<and> is_integral Int32
   \<and> value_of Int32 (lim_max (SaturationHandler DefaultLimits Int32))
   \<and> DstRangeRelationToSrcRange Int32 (SaturationHandler DefaultLimits) Float (FltV FNaN) =
       \<lparr>is_underflow = True, is_overflow = True\<rparr>
   \<and> saturated_cast Int32 DefaultLimits Float False (FltV FNaN) = IntV 0"
proof -
  have h: "is_floating_point Float" "is_integral Int32"
    "value_of Int32 (lim_max (SaturationHandler DefaultLimits Int32))"
    by (simp_all add: is_integral_def SaturationDefaultLimits_def numeric_limits_def
        int_value_of_def int_lowest_def int_max_def)
  show ?thesis using h NaN_source [OF h, of False] by auto
qed

section \<open>Signed sources for unsigned destinations\<close>

text \<open>
  Claim C7. For a signed source type and an unsigned integer destination type, a
  combination that is never statically contained, with the standard limits: the
  underflow flag is set for every negative value of an integer source; for a
  floating-point source it is set for every value less than or equal to -1 (and for
  not-a-number), and it is clear for every value greater than -1, so also for the values
  between -1 and 0.
\<close>

theorem signed_to_unsigned_underflow:
  assumes "unsigned_integral dst" "is_signed src" "value_of src value"
    and "lim_max (B dst) = lim_max (numeric_limits dst)"
    and "lim_lowest (B dst) = lim_lowest (numeric_limits dst)"
  shows "kStaticDstRangeRelationToSrcRange dst src = kNotContained
    \<and> IsUnderflowFlagSet (DstRangeRelationToSrcRange dst B src value) =
      (case value of
         IntV v \<Rightarrow> v < 0
       | FltV (Fin q) \<Rightarrow> q \<le> - 1
       | FltV NegInf \<Rightarrow> True
       | FltV FNaN \<Rightarrow> True
       | FltV PosInf \<Rightarrow> False)"
proof -
  have d: "is_integral dst" "\<not> is_signed dst"
    using assms(1) by (simp_all add: unsigned_integral_def)
  have k: "kStaticDstRangeRelationToSrcRange dst src = kNotContained"
    using d(2) assms(2) by (simp add: kStaticDstRangeRelationToSrcRange_def representation_def)
  show ?thesis
  proof (cases "value")
    case (IntV v)
    then have v: "int_value_of src v" using assms(3) by simp
    have nl: "lim_max (B dst) = IntV (int_max dst)" "lim_lowest (B dst) = IntV (int_lowest dst)"
      using assms(4,5) d(1) by (simp_all add: numeric_limits_def is_integral_def)
    show ?thesis
      unfolding IntV classify_int[where B=B, OF v d(1) nl]
      using k d(2)
      by (auto simp: IsUnderflowFlagSet_def RangeCheck_ctor_def int_lowest_def)
  next
    case (FltV f)
    then have s: "is_floating_point src" using assms(3) by (cases f) simp_all
    show ?thesis
      unfolding FltV classify_float_source[where B=B, OF s d(1) assms(4,5)]
      using k d(2)
      by (cases f) (auto simp: IsUnderflowFlagSet_def RangeCheck_ctor_def)
  qed
qed

theorem signed_to_unsigned_underflow_witness:
  "unsigned_integral UInt32 \<and> is_signed Float \<and> value_of Float (FltV (Fin (- 1 / 2)))
   \<and> lim_max (numeric_limits UInt32) = lim_max (numeric_limits UInt32)
   \<and> lim_lowest (numeric_limits UInt32) = lim_lowest (numeric_limits UInt32)
   \<and> \<not> IsUnderflowFlagSet
         (DstRangeRelationToSrcRange UInt32 numeric_limits Float (FltV (Fin (- 1 / 2))))
   \<and> value_of Float (FltV (Fin (- 1)))
   \<and> IsUnderflowFlagSet (DstRangeRelationToSrcRange UInt32 numeric_limits Float (FltV (Fin (- 1))))
   \<and> is_signed Int8 \<and> value_of Int8 (IntV (- 1))
   \<and> IsUnderflowFlagSet (DstRangeRelationToSrcRange UInt32 numeric_limits Int8 (IntV (- 1)))"
proof -
  have u: "unsigned_integral UInt32" by (simp add: unsigned_integral_def is_integral_def)
  have s: "is_signed Float" "is_signed Int8" by simp_all
  have v1: "value_of Float (FltV (Fin (- 1 / 2)))" by code_simp
  have v2: "value_of Float (FltV (Fin (- 1)))" by code_simp
  have v3: "value_of Int8 (IntV (- 1))"
    by (simp add: int_value_of_def int_lowest_def int_max_def is_integral_def)
  show ?thesis
    using u s v1 v2 v3
      signed_to_unsigned_underflow [where B=numeric_limits, OF u s(1) v1 refl refl]
      signed_to_unsigned_underflow [where B=numeric_limits, OF u s(1) v2 refl refl]
      signed_to_unsigned_underflow [where B=numeric_limits, OF u s(2) v3 refl refl]
    by simp
qed

section \<open>The rounded maximum of the destination\<close>

text \<open>
  Claim C3. For a floating-point source type and an integer destination type, take the
  maximum of the destination converted to the source type. Whenever the conversion
  rounds it up, so that its value exceeds the maximum, the classifier sets the overflow
  flag (and not the underflow flag) and \<open>saturated_cast\<close> returns the handler's
  \<open>Overflow\<close>: the comparison against the adjusted bound of \<open>NarrowingRange\<close> fails, while
  the comparison against the maximum itself, promoted to the source type, succeeds.
\<close>

theorem rounded_max_overflows:
  assumes "is_floating_point src" "is_integral dst"
    and "value = static_cast src dst (IntV (int_max dst))"
    and "val_less (IntV (int_max dst)) value"
    and "lim_max (SaturationHandler p dst) = lim_max (numeric_limits dst)"
    and "lim_lowest (SaturationHandler p dst) = lim_lowest (numeric_limits dst)"
  shows "DstRangeRelationToSrcRange dst (SaturationHandler p) src value =
      \<lparr>is_underflow = False, is_overflow = True\<rparr>
    \<and> saturated_cast dst p src is_constant_evaluated value = Overflow (SaturationHandler p dst)
    \<and> \<not> c_le src value dst (NarrowingRange_max dst src (SaturationHandler p))
    \<and> c_le src value dst (lim_max (numeric_limits dst))"
proof -
  note s = assms(1) and d = assms(2)
  note ft = float_types[OF s]
  define n where "n = digits dst"
  have mx: "int_max dst = 2 ^ n - 1" by (simp add: int_max_def n_def)
  have n64: "n \<le> 64" using ft(12)[OF d] by (simp add: n_def)
  have p65: "(2::int) ^ n < 2 ^ 65" using n64 by (intro power_strict_increasing) simp_all
  have cast: "\<And>x. static_cast src dst (IntV x) = FltV (fp_round src (of_int x))"
    using s ft(6)[OF d] by (simp add: static_cast_def)
  have big: "digits src < n"
  proof (rule ccontr)
    assume "\<not> digits src < n"
    then have le: "(2::int) ^ n \<le> 2 ^ digits src" by (intro power_increasing) simp_all
    have a1: "(0::int) \<le> 2 ^ n - 1" by simp
    have a2: "(2::int) ^ n - 1 < 2 ^ 65" using p65 by linarith
    have a3: "((2::int) ^ n - 1) mod 2 ^ 0 = 0" by simp
    have "(2::int) ^ n - 1 < 2 ^ digits src" using le by linarith
    then have a4: "(2::int) ^ n - 1 < 2 ^ (digits src + 0)" by (simp only: add_0_right)
    have "fp_round src (of_int (2 ^ n - 1)) = Fin (of_int (2 ^ n - 1))"
      using s a1 a2 a3 a4 by (rule fp_round_exact(1))
    then show False using assms(3,4) by (simp add: cast mx)
  qed
  have val: "value = FltV (Fin (of_int (2 ^ n)))"
    using fp_round_max_up[OF s big n64] by (simp add: assms(3) cast mx)
  have b4: "(2::int) ^ n < 2 ^ (digits src + n)"
    using ft(13) by (intro power_strict_increasing) simp_all
  have b1: "(0::int) \<le> 2 ^ n" and b3: "(2::int) ^ n mod 2 ^ n = 0" by simp_all
  have "fp_round src (of_int (2 ^ n)) = Fin (of_int (2 ^ n))"
    using s b1 p65 b3 b4 by (rule fp_round_exact(1))
  then have vo: "value_of src value" using s by (simp add: val)
  obtain A where A: "NarrowingRange_max dst src (SaturationHandler p) = IntV A"
    "0 \<le> A" "A \<le> int_max dst"
    "static_cast src dst (IntV A) = FltV (Fin (of_int A))"
    using narrowing_bounds_float_source[where B="SaturationHandler p", OF s d assms(5,6)]
    by blast
  have Alt: "\<not> (2::int) ^ n \<le> A" using A(3) by (simp add: mx)
  then have Alt': "\<not> (2::rat) ^ n \<le> of_int A"
    by (metis of_int_le_iff of_int_numeral of_int_power)
  have "int_lowest dst \<le> 0" "(0::int) \<le> 2 ^ n" by (simp_all add: int_lowest_def)
  then have lo: "int_lowest dst \<le> 2 ^ n" by linarith
  then have lo': "(of_int (int_lowest dst) :: rat) \<le> 2 ^ n"
    by (metis of_int_le_iff of_int_numeral of_int_power)
  have "(0::rat) < 2 ^ n" by simp
  then have m1: "(- 1 :: rat) < 2 ^ n" by linarith
  have c: "DstRangeRelationToSrcRange dst (SaturationHandler p) src value =
      \<lparr>is_underflow = False, is_overflow = True\<rparr>"
    unfolding val classify_float_source[where B="SaturationHandler p", OF s d assms(5,6)]
    using Alt' lo' m1 by (simp add: RangeCheck_ctor_def A)
  have ni: "\<not> is_integral src" using s by (simp add: is_integral_def)
  have r: "saturated_cast dst p src is_constant_evaluated value = Overflow (SaturationHandler p dst)"
    unfolding saturated_cast_general[OF vo] c
    by (simp add: saturated_cast_impl_def IsOverflowFlagSet_def IsUnderflowFlagSet_def)
  have adj: "\<not> c_le src value dst (NarrowingRange_max dst src (SaturationHandler p))"
    using Alt' by (simp add: c_le_def ft(4)[OF d] value_of_static_cast_self A val)
  have naive: "c_le src value dst (lim_max (numeric_limits dst))"
    using d fp_round_max_up[OF s big n64]
    by (simp add: c_le_def ft(4)[OF d] value_of_static_cast_self val numeric_limits_def
        is_integral_def cast mx)
  show ?thesis using c r adj naive by simp
qed

theorem rounded_max_overflows_witness:
  "is_floating_point Float \<and> is_integral UInt32
   \<and> FltV (Fin 4294967296) = static_cast Float UInt32 (IntV (int_max UInt32))
   \<and> val_less (IntV (int_max UInt32)) (FltV (Fin 4294967296))
   \<and> lim_max (SaturationHandler DefaultLimits UInt32) = lim_max (numeric_limits UInt32)
   \<and> lim_lowest (SaturationHandler DefaultLimits UInt32) = lim_lowest (numeric_limits UInt32)
   \<and> DstRangeRelationToSrcRange UInt32 (SaturationHandler DefaultLimits) Float
         (FltV (Fin 4294967296)) = \<lparr>is_underflow = False, is_overflow = True\<rparr>
   \<and> saturated_cast UInt32 DefaultLimits Float False (FltV (Fin 4294967296)) = IntV 4294967295"
proof -
  have h: "is_floating_point Float" "is_integral UInt32"
    "FltV (Fin 4294967296) = static_cast Float UInt32 (IntV (int_max UInt32))"
    "val_less (IntV (int_max UInt32)) (FltV (Fin 4294967296))"
    "lim_max (SaturationHandler DefaultLimits UInt32) = lim_max (numeric_limits UInt32)"
    "lim_lowest (SaturationHandler DefaultLimits UInt32) = lim_lowest (numeric_limits UInt32)"
    by code_simp+
  have o: "Overflow (SaturationHandler DefaultLimits UInt32) = IntV 4294967295"
    by (simp add: default_limits_int is_integral_def int_max_def)
  show ?thesis using h o rounded_max_overflows [OF h, of False] by simp
qed

section \<open>Round trips\<close>

lemma fp_round_exact_wide:
  assumes t: "is_floating_point t" and a: "0 \<le> a" "(of_int a :: rat) \<le> fp_max t"
    and m: "a mod 2 ^ s = 0" "a < 2 ^ (digits t + s)"
  shows "fp_round t (of_int a) = Fin (of_int a)"
    and "fp_round t (of_int (- a)) = Fin (of_int (- a))"
proof -
  have "fp_round t (of_int a) = Fin (of_int a) \<and> fp_round t (of_int (- a)) = Fin (of_int (- a))"
  proof (cases "a = 0")
    case True
    then show ?thesis by (simp add: fp_round_def)
  next
    case False
    then have pos: "0 < a" using a(1) by simp
    note b = nat_bitlen_bounds[OF pos]
    have r: "round_integer (digits t) (nat (bitlen a)) a = a"
      using b(2) b(3) b(1) m by (rule round_integer_exact)
    have fit: "(of_int (round_integer (digits t) (nat (bitlen a)) a) :: rat) \<le> fp_max t"
      unfolding r by (rule a(2))
    show ?thesis
      using fp_round_of_int_wide[OF t b(1) b(2) b(3) fit] r by simp
  qed
  then show "fp_round t (of_int a) = Fin (of_int a)"
    and "fp_round t (of_int (- a)) = Fin (of_int (- a))" by simp_all
qed

lemma float_max_in_double:
  "fp_round Double (fp_max Float) = Fin (fp_max Float)"
  "fp_round Double (- fp_max Float) = Fin (- fp_max Float)"
proof -
  define a :: int where "a = 2 ^ 128 - 2 ^ 104"
  have f: "fp_max Float = of_int a" by (simp add: fp_max_def a_def)
  have a0: "0 \<le> a" by (simp add: a_def)
  have a1: "(of_int a :: rat) \<le> fp_max Double" by (simp add: a_def fp_max_def)
  have a2: "a mod 2 ^ 104 = 0" by (simp add: a_def)
  have a3: "a < 2 ^ (digits Double + 104)" by (simp add: a_def)
  have d: "is_floating_point Double" by simp
  show "fp_round Double (fp_max Float) = Fin (fp_max Float)"
    unfolding f using d a0 a1 a2 a3 by (rule fp_round_exact_wide(1))
  have "fp_round Double (of_int (- a)) = Fin (of_int (- a))"
    using d a0 a1 a2 a3 by (rule fp_round_exact_wide(2))
  then show "fp_round Double (- fp_max Float) = Fin (- fp_max Float)"
    unfolding f by simp
qed


text \<open>A finite value in the range of a floating-point destination passes the check.\<close>

lemma classify_float_float:
  assumes s: "is_floating_point src" and d: "is_floating_point dst"
    and B: "lim_max (B dst) = lim_max (numeric_limits dst)"
      "lim_lowest (B dst) = lim_lowest (numeric_limits dst)"
    and q: "- fp_max dst \<le> q" "q \<le> fp_max dst"
  shows "DstRangeRelationToSrcRange dst B src (FltV (Fin q)) =
    \<lparr>is_underflow = False, is_overflow = False\<rparr>"
proof -
  have nd: "\<not> is_integral dst" using d by (simp add: is_integral_def)
  have NR: "NarrowingRange_max dst src B = FltV (Fin (fp_max dst))"
    "NarrowingRange_lowest dst src B = FltV (Fin (- fp_max dst))"
    using d nd by (simp_all add: NarrowingRange_max_def NarrowingRange_lowest_def Adjust_def B
        numeric_limits_def)
  have le: "fp_max Float \<le> fp_max Double" by (simp add: fp_max_def)
  show ?thesis
    using s d q le NR
    by (cases src; cases dst)
      (simp_all add: DstRangeRelationToSrcRange_def representation_def
        kStaticDstRangeRelationToSrcRange_def kMaxExponent_def c_ge_def c_le_def
        arith_conv_def static_cast_def numeric_limits_def float_max_in_double
        RangeCheck_ctor_def)
qed

text \<open>
  A non-negative integer below \<open>2 ^ N\<close> that the floating-point type represents exactly
  is at most the adjusted maximum of an integer type of \<open>N\<close> digits.
\<close>

lemma representable_below_adjusted:
  assumes t: "is_floating_point t" and x: "0 \<le> x" "x < 2 ^ N" and N: "N \<le> 64"
    and rep: "fp_round t (of_int x) = Fin (of_int x)"
  shows "x \<le> (2 ^ N - 1) - (2 ^ N - 1) mod 2 ^ (N - digits t)"
proof (cases "N \<le> digits t")
  case True
  then show ?thesis using x(2) by simp
next
  case False
  define d where "d = digits t"
  define k where "k = N - d"
  have k: "0 < k" "N = d + k" using False by (simp_all add: k_def d_def)
  have dpos: "0 < d" using t by (cases t) (simp_all add: d_def)
  have dec: "(2::int) ^ N - 1 = (2 ^ d - 1) * 2 ^ k + (2 ^ k - 1)"
    by (simp add: k(2) power_add algebra_simps)
  have small: "((2::int) ^ k - 1) mod 2 ^ k = 2 ^ k - 1"
    by (rule mod_pos_pos_trivial) simp_all
  have "((2 ^ d - 1) * 2 ^ k + (2 ^ k - 1)) mod (2::int) ^ k = (2 ^ k - 1) mod 2 ^ k"
    by (rule mod_mult_self3)
  then have md: "((2::int) ^ N - 1) mod 2 ^ k = 2 ^ k - 1"
    unfolding dec small .
  have goal: "x \<le> 2 ^ N - 2 ^ k"
  proof (cases "x < 2 ^ (N - 1)")
    case True
    have "k \<le> N - 1" using k(2) dpos by simp
    then have "(2::int) ^ k \<le> 2 ^ (N - 1)" by (intro power_increasing) simp_all
    moreover have "0 < N" using k by simp
    then have "(2::int) ^ N = 2 * 2 ^ (N - 1)" by (cases N) simp_all
    ultimately show ?thesis using True by linarith
  next
    case hi: False
    then have lo: "2 ^ (N - 1) \<le> x" by simp
    have Npos: "0 < N" "N \<le> 65" using k N by simp_all
    have "fp_round t (of_int x) = Fin (of_int (round_integer d N x))"
      unfolding d_def using t Npos lo x(2) by (rule fp_round_of_int(1))
    then have "round_integer d N x = x" using rep by simp
    moreover have "(2::int) ^ k dvd round_integer d N x"
      using False by (simp add: round_integer_def Let_def d_def k_def)
    ultimately have dv: "(2::int) ^ k dvd x" by simp
    have "(2::int) ^ k dvd 2 ^ N" using k(2) by (simp add: le_imp_power_dvd)
    then have "(2::int) ^ k dvd 2 ^ N - x" using dv by (rule dvd_diff)
    moreover have "0 < 2 ^ N - x" using x(2) by simp
    ultimately have "(2::int) ^ k \<le> 2 ^ N - x" by (rule zdvd_imp_le)
    then show ?thesis by linarith
  qed
  show ?thesis using goal by (simp add: md flip: k_def d_def)
qed


lemma trunc_of_int [simp]: "trunc (of_int n) = n"
  by (simp add: trunc_def)

lemma fval_eq_Fin: "fval_eq f (Fin q) = (f = Fin q)"
  by (cases f) auto

lemma val_le_finite:
  assumes "val_le (IntV a) (FltV f)" "val_le (FltV f) (IntV b)"
  shows "\<exists>q. f = Fin q \<and> of_int a \<le> q \<and> q \<le> of_int b"
  using assms by (cases f) (auto simp: val_le_def)

lemma val_le_finite_float:
  assumes "val_le (FltV (Fin a)) (FltV f)" "val_le (FltV f) (FltV (Fin b))"
  shows "\<exists>q. f = Fin q \<and> a \<le> q \<and> q \<le> b"
  using assms by (cases f) (auto simp: val_le_def)

text \<open>
  A value of the source type in the range of the destination type, which the conversion
  to the destination keeps, passes the check and is converted back to itself.
\<close>

lemma exact_in_range:
  assumes vo: "value_of src value"
    and lo: "val_le (lim_lowest (numeric_limits dst)) value"
    and hi: "val_le value (lim_max (numeric_limits dst))"
    and ex: "val_eq (static_cast dst src value) value"
    and B: "lim_max (B dst) = lim_max (numeric_limits dst)"
      "lim_lowest (B dst) = lim_lowest (numeric_limits dst)"
  shows "DstRangeRelationToSrcRange dst B src value =
      \<lparr>is_underflow = False, is_overflow = False\<rparr>
    \<and> static_cast src dst (static_cast dst src value) = value"
proof (cases "is_floating_point src")
  case False
  then have s: "is_integral src" by (simp add: is_integral_def)
  obtain v where v: "value = IntV v" "int_value_of src v"
    using value_of_int[OF s vo] by blast
  show ?thesis
  proof (cases "is_floating_point dst")
    case d: False
    then have di: "is_integral dst" by (simp add: is_integral_def)
    have nl: "lim_max (B dst) = IntV (int_max dst)" "lim_lowest (B dst) = IntV (int_lowest dst)"
      using B d by (simp_all add: numeric_limits_def)
    have r: "int_lowest dst \<le> v" "v \<le> int_max dst"
      using lo hi d by (auto simp: v(1) numeric_limits_def val_le_def)
    then have dv: "int_value_of dst v" using di by (simp add: int_value_of_def)
    show ?thesis
      unfolding v(1) classify_int[where B=B, OF v(2) di nl]
      using r by (simp add: RangeCheck_ctor_def static_cast_int_id[OF dv] static_cast_int_id[OF v(2)])
  next
    case d: True
    have ne: "dst \<noteq> src" using d False by auto
    have "fp_round dst (of_int v) = Fin (of_int v)"
      using ex d ne by (simp add: v(1) static_cast_def fval_eq_Fin)
    then have "static_cast src dst (static_cast dst src (IntV v)) = IntV v"
      using d ne False v(2) by (simp add: static_cast_def int_cast_id)
    then show ?thesis
      unfolding v(1) classify_int_to_float[where B=B, OF s d B] by simp
  qed
next
  case s: True
  obtain f where f: "value = FltV f" using vo s by (cases "value") (auto simp: is_integral_def int_value_of_def)
  show ?thesis
  proof (cases "is_floating_point dst")
    case d: False
    then have di: "is_integral dst" by (simp add: is_integral_def)
    note ft = float_types[OF s]
    have ne: "dst \<noteq> src" using ft(6)[OF di] .
    obtain q where q: "f = Fin q" "of_int (int_lowest dst) \<le> q" "q \<le> of_int (int_max dst)"
      using val_le_finite[of "int_lowest dst" f "int_max dst"] lo hi d
      by (auto simp: f numeric_limits_def)
    define n where "n = int_cast dst (trunc q)"
    have qn: "q = of_int n"
      using ex d ne by (simp add: f q(1) static_cast_def n_def fval_eq_Fin)
    have r: "int_lowest dst \<le> n" "n \<le> int_max dst" using q(2,3) by (simp_all add: qn)
    then have dv: "int_value_of dst n" using di by (simp add: int_value_of_def)
    have rep: "fp_round src (of_int n) = Fin (of_int n)" using vo s by (simp add: f q(1) qn)
    obtain A where A: "NarrowingRange_max dst src B = IntV A"
      "A = int_max dst - int_max dst mod 2 ^ kShift dst src" "0 \<le> A"
      "static_cast src dst (IntV A) = FltV (Fin (of_int A))"
      using narrowing_bounds_float_source[where B=B, OF s di B] by blast
    have nA: "n \<le> A"
    proof (cases "0 \<le> n")
      case True
      have "n < 2 ^ digits dst" using r(2) by (simp add: int_max_def)
      from representable_below_adjusted[OF s True this ft(12)[OF di] rep]
      show ?thesis by (simp add: A(2) ft(9)[OF di] int_max_def)
    next
      case False
      then show ?thesis using A(3) by simp
    qed
    have lo0: "\<not> is_signed dst \<Longrightarrow> 0 \<le> n" using r(1) by (simp add: int_lowest_def)
    have c: "DstRangeRelationToSrcRange dst B src (FltV (Fin (of_int n))) =
        \<lparr>is_underflow = False, is_overflow = False\<rparr>"
      unfolding classify_float_source[where B=B, OF s di B]
      using r(1) nA lo0 by (auto simp: RangeCheck_ctor_def A(1,4))
    have "static_cast src dst (static_cast dst src (FltV (Fin (of_int n)))) = FltV (Fin (of_int n))"
      using d s ne rep dv by (simp add: static_cast_def int_cast_id)
    then show ?thesis using c by (simp add: f q(1) qn)
  next
    case d: True
    obtain q where q: "f = Fin q" "- fp_max dst \<le> q" "q \<le> fp_max dst"
      using val_le_finite_float[of "- fp_max dst" f "fp_max dst"] lo hi d
      by (auto simp: f numeric_limits_def)
    have rep: "fp_round src q = Fin q" using vo s by (simp add: f q(1))
    have "static_cast src dst (static_cast dst src (FltV (Fin q))) = FltV (Fin q)"
    proof (cases "dst = src")
      case True
      then show ?thesis by (simp add: static_cast_def)
    next
      case False
      then have "fp_round dst q = Fin q"
        using ex d by (simp add: f q(1) static_cast_def fval_eq_Fin)
      then show ?thesis using False d s rep by (simp add: static_cast_def)
    qed
    then show ?thesis
      unfolding f q(1) classify_float_float[where B=B, OF s d B q(2,3)] by simp
  qed
qed


text \<open>
  Claim C4, as stated, fails for a floating-point source with a fractional part: 1.5 of
  type \<open>float\<close> is in the range of a 32-bit signed destination, \<open>saturated_cast\<close> returns
  1, and 1 converted back is not 1.5. It fails as well for an integer source that a
  floating-point destination rounds: 16777217 becomes 16777216 in \<open>float\<close>.
\<close>

theorem round_trip_counterexample:
  "value_of Float (FltV (Fin (3 / 2)))
   \<and> val_le (lim_lowest (numeric_limits Int32)) (FltV (Fin (3 / 2)))
   \<and> val_le (FltV (Fin (3 / 2))) (lim_max (numeric_limits Int32))
   \<and> saturated_cast Int32 DefaultLimits Float False (FltV (Fin (3 / 2))) = IntV 1
   \<and> static_cast Float Int32 (saturated_cast Int32 DefaultLimits Float False (FltV (Fin (3 / 2))))
       \<noteq> FltV (Fin (3 / 2))
   \<and> value_of Int32 (IntV 16777217)
   \<and> val_le (lim_lowest (numeric_limits Float)) (IntV 16777217)
   \<and> val_le (IntV 16777217) (lim_max (numeric_limits Float))
   \<and> static_cast Int32 Float (saturated_cast Float DefaultLimits Int32 False (IntV 16777217))
       = IntV 16777216"
proof -
  have a: "value_of Float (FltV (Fin (3 / 2)))"
    "val_le (lim_lowest (numeric_limits Int32)) (FltV (Fin (3 / 2)))"
    "val_le (FltV (Fin (3 / 2))) (lim_max (numeric_limits Int32))"
    by code_simp+
  have b: "saturated_cast Int32 DefaultLimits Float False (FltV (Fin (3 / 2))) = IntV 1"
    by code_simp
  have c: "static_cast Float Int32 (IntV 1) \<noteq> FltV (Fin (3 / 2))"
    by code_simp
  have d: "value_of Int32 (IntV 16777217)"
    "val_le (lim_lowest (numeric_limits Float)) (IntV 16777217)"
    "val_le (IntV 16777217) (lim_max (numeric_limits Float))"
    by code_simp+
  have e: "saturated_cast Float DefaultLimits Int32 False (IntV 16777217) = FltV (Fin 16777216)"
    by code_simp
  have f: "static_cast Int32 Float (FltV (Fin 16777216)) = IntV 16777216"
    by code_simp
  show ?thesis using a b c d e f by simp
qed

text \<open>
  Claim C4, amended. For every pair of types and every value \<open>v\<close> of the source type that
  lies within the range of the destination type and that the destination type represents
  exactly (the conversion to the destination keeps the numeric value: for an integer
  destination \<open>v\<close> has no fractional part, for a floating-point destination \<open>v\<close> needs no
  rounding), \<open>saturated_cast\<close> returns \<open>v\<close> converted to the destination, and converting
  that back to the source type yields \<open>v\<close>.
\<close>

theorem round_trip_exact:
  assumes "value_of src value"
    and "val_le (lim_lowest (numeric_limits dst)) value"
    and "val_le value (lim_max (numeric_limits dst))"
    and "val_eq (static_cast dst src value) value"
  shows "saturated_cast dst DefaultLimits src is_constant_evaluated value = static_cast dst src value
    \<and> static_cast src dst (saturated_cast dst DefaultLimits src is_constant_evaluated value) =
      value"
proof -
  have dl: "lim_max (SaturationDefaultLimits dst) = lim_max (numeric_limits dst)"
    "lim_lowest (SaturationDefaultLimits dst) = lim_lowest (numeric_limits dst)"
    by (simp_all add: SaturationDefaultLimits_def)
  note e = exact_in_range[where B=SaturationDefaultLimits, OF assms dl]
  have "saturated_cast dst DefaultLimits src is_constant_evaluated value = static_cast dst src value"
    unfolding saturated_cast_general[OF assms(1)]
    using e by (simp add: saturated_cast_impl_def IsOverflowFlagSet_def IsUnderflowFlagSet_def)
  then show ?thesis using e by simp
qed

theorem round_trip_exact_witness:
  "value_of Float (FltV (Fin 2))
   \<and> val_le (lim_lowest (numeric_limits Int32)) (FltV (Fin 2))
   \<and> val_le (FltV (Fin 2)) (lim_max (numeric_limits Int32))
   \<and> val_eq (static_cast Int32 Float (FltV (Fin 2))) (FltV (Fin 2))
   \<and> saturated_cast Int32 DefaultLimits Float False (FltV (Fin 2)) = IntV 2
   \<and> static_cast Float Int32 (saturated_cast Int32 DefaultLimits Float False (FltV (Fin 2))) =
       FltV (Fin 2)"
proof -
  have h: "value_of Float (FltV (Fin 2))"
    "val_le (lim_lowest (numeric_limits Int32)) (FltV (Fin 2))"
    "val_le (FltV (Fin 2)) (lim_max (numeric_limits Int32))"
    "val_eq (static_cast Int32 Float (FltV (Fin 2))) (FltV (Fin 2))"
    by code_simp+
  have c: "static_cast Int32 Float (FltV (Fin 2)) = IntV 2" by code_simp
  show ?thesis using h c round_trip_exact [OF h, of False] by auto
qed

end
